theory Spec2Isabelle
  imports Complex_Main
begin

section \<open>The downloader's state\<close>

text \<open>
  The fields of class \<open>Downloader\<close> that the request throttle, the URL shorthand,
  the download cache and the article fetch read or write. \<open>KVS<string>\<close> (a plain
  JavaScript object) is an association list in insertion order. JavaScript numbers
  that only ever hold integers are \<open>int\<close>.
\<close>

record downloader =
  activeRequests :: int
  maxActiveRequests :: int
  forceParsoidFallback :: bool
  mcsAvailable :: bool
  mcsUrl :: string
  parsoidFallbackUrl :: string
  urlPartCache :: "(string \<times> string) list"
  useDownloadCache :: bool
  downloadCacheDirectory :: "string option"

text \<open>
  The constructor: \<open>activeRequests = 0\<close>, \<open>maxActiveRequests = speed * 10\<close>,
  \<open>forceParsoidFallback = false\<close>, \<open>mwCapabilities.mcsAvailable = true\<close>, an empty
  \<open>urlPartCache\<close>, and the two backend URLs built from \<open>mw.base\<close> and \<open>mw.apiUrl\<close>.
\<close>

definition new_Downloader :: "string \<Rightarrow> string \<Rightarrow> int \<Rightarrow> bool \<Rightarrow> string option \<Rightarrow> downloader" where
  "new_Downloader mw_base mw_apiUrl speed useCache cacheDir =
     \<lparr> activeRequests = 0,
       maxActiveRequests = speed * 10,
       forceParsoidFallback = False,
       mcsAvailable = True,
       mcsUrl = mw_base @ ''api/rest_v1/page/mobile-sections/'',
       parsoidFallbackUrl =
         mw_apiUrl @ ''action=visualeditor&mobileformat=html&format=json&paction=parse&page='',
       urlPartCache = [],
       useDownloadCache = useCache,
       downloadCacheDirectory = cacheDir \<rparr>"

text \<open>
  An error object as the code inspects it: \<open>err.code\<close> and \<open>err.response.status\<close>,
  either of which may be absent.
\<close>

record js_error =
  err_code :: "string option"
  err_status :: "nat option"

section \<open>Request throttle\<close>

text \<open>
  \<open>Math.max(Math.ceil(this.maxActiveRequests * 0.9), 1)\<close> on an integer ceiling,
  with the product taken in the reals (the double nearest to \<open>0.9\<close> exceeds it by
  less than \<open>3e-17\<close>, which moves no product of a ceiling a run can hold across an
  integer).
\<close>

definition newMaxActiveRequests :: "int \<Rightarrow> int" where
  "newMaxActiveRequests c = max \<lceil>real_of_int c * (9 / 10)\<rceil> 1"

text \<open>
  One evaluation of the test in \<open>claimRequest\<close>: below the ceiling the request is
  admitted and counted; otherwise the caller sleeps 200 ms and polls again, so the
  state is unchanged and the answer is \<open>False\<close>.
\<close>

definition claimRequest :: "downloader \<Rightarrow> bool \<times> downloader" where
  "claimRequest d =
     (if activeRequests d < maxActiveRequests d
      then (True, d\<lparr>activeRequests := activeRequests d + 1\<rparr>)
      else (False, d))"

definition releaseRequest :: "downloader \<Rightarrow> downloader" where
  "releaseRequest d = d\<lparr>activeRequests := activeRequests d - 1\<rparr>"

text \<open>
  \<open>errHandler\<close>: a 429 lowers the ceiling; the error is then handed to the
  handler in every case (the second component).
\<close>

definition errHandler :: "js_error \<Rightarrow> downloader \<Rightarrow> downloader \<times> js_error" where
  "errHandler e d =
     (if err_status e = Some 429
      then (d\<lparr>maxActiveRequests := newMaxActiveRequests (maxActiveRequests d)\<rparr>, e)
      else (d, e))"

text \<open>
  The throttle under cooperative scheduling: the calls that touch the two counters,
  in the order in which they run. \<open>Claim\<close> is one poll of a waiting \<open>claimRequest\<close>,
  \<open>Release\<close> a \<open>releaseRequest\<close>, \<open>RateLimited\<close> an \<open>errHandler\<close> call with a 429.
\<close>

datatype throttle_event = Claim | Release | RateLimited

fun throttle_step :: "downloader \<Rightarrow> throttle_event \<Rightarrow> downloader" where
  "throttle_step d Claim = snd (claimRequest d)"
| "throttle_step d Release = releaseRequest d"
| "throttle_step d RateLimited =
     fst (errHandler \<lparr> err_code = None, err_status = Some 429 \<rparr> d)"

definition throttle_run :: "downloader \<Rightarrow> throttle_event list \<Rightarrow> downloader" where
  "throttle_run d evs = foldl throttle_step d evs"

text \<open>
  The invariant of the throttle: the ceiling stays between one and its first value
  \<open>c0\<close>, which also bounds the count of requests in flight.
\<close>

definition throttle_inv :: "int \<Rightarrow> downloader \<Rightarrow> bool" where
  "throttle_inv c0 d =
     (1 \<le> maxActiveRequests d \<and> maxActiveRequests d \<le> c0 \<and> activeRequests d \<le> c0)"

subsection \<open>The JSON request callback\<close>

text \<open>
  \<open>getJSONCb\<close> is
  \<^verbatim>\<open>axios.get(url, ...).then((a) => handler(null, a.data), handler).catch((err) => {...})\<close>.
  A fulfilled request calls \<open>handler(null, data)\<close>, a rejected one calls
  \<open>handler(err)\<close>: both are the two arguments of the same \<open>then\<close>. The function of
  \<open>catch\<close> therefore runs only when the handler call itself throws, and \<open>err\<close> is
  then what the handler threw. In that function a thrown value with status 429
  lowers the ceiling and issues the request again; one with status 404 is handed to
  the handler, and if that call throws, the surrounding \<open>try\<close> hands it over once more.

  \<open>axios n\<close> is the outcome of the \<open>n\<close>-th request, \<open>handler c\<close> is \<open>Some x\<close> when the
  handler throws \<open>x\<close> on the call \<open>c\<close>. The result is the new state and the handler
  calls made, or \<open>None\<close> when the fuel (a bound on re-issued requests) runs out.
\<close>

datatype 'a axios_result = Fulfilled 'a | Rejected js_error

datatype 'a handler_call = HandlerData 'a | HandlerErr js_error

fun getJSONCb :: "nat \<Rightarrow> (nat \<Rightarrow> 'a axios_result) \<Rightarrow> ('a handler_call \<Rightarrow> js_error option)
    \<Rightarrow> nat \<Rightarrow> downloader \<Rightarrow> (downloader \<times> 'a handler_call list) option" where
  "getJSONCb 0 axios handler n d = None"
| "getJSONCb (Suc fuel) axios handler n d =
     (let call = (case axios n of Fulfilled a \<Rightarrow> HandlerData a | Rejected e \<Rightarrow> HandlerErr e) in
      case handler call of
        None \<Rightarrow> Some (d, [call])
      | Some x \<Rightarrow>
          if err_status x = Some 429 then
            (case getJSONCb fuel axios handler (Suc n)
                    (d\<lparr>maxActiveRequests := newMaxActiveRequests (maxActiveRequests d)\<rparr>) of
               None \<Rightarrow> None
             | Some (d', calls) \<Rightarrow> Some (d', call # calls))
          else if err_status x = Some 404 then
            (case handler (HandlerErr x) of
               None \<Rightarrow> Some (d, [call, HandlerErr x])
             | Some _ \<Rightarrow> Some (d, [call, HandlerErr x, HandlerErr x]))
          else Some (d, [call]))"

section \<open>Backoff policy\<close>

text \<open>
  The default \<open>backoffOptions\<close> of the constructor: \<open>failAfter: 7\<close> and
  \<open>retryIf: (err) => err.code === 'ECONNABORTED' || err.response?.status !== 404\<close>.
\<close>

definition failAfter :: nat where
  "failAfter = 7"

definition retryIf :: "js_error \<Rightarrow> bool" where
  "retryIf err = (err_code err = Some ''ECONNABORTED'' \<or> err_status err \<noteq> Some 404)"

text \<open>
  Modelled from the spec: the retry loop of the \<open>backoff\<close> package, which
  \<open>backoffCall\<close> configures and starts but whose code is not part of the sources
  (spec 4.2: "Attempt ceiling: 7; once exceeded, the last error is surfaced
  unchanged"; retry unless the predicate refuses). \<open>work n\<close> is the outcome of the
  call made after \<open>n\<close> retries. A success, or an error the predicate refuses, ends the
  call with that outcome; an error the predicate accepts is retried while fewer than
  \<open>failAfter\<close> retries have been made, and ends the call with that error otherwise.
  The result is the outcome handed to the callback and the number of retries made.
\<close>

fun backoff_from :: "(js_error \<Rightarrow> bool) \<Rightarrow> (nat \<Rightarrow> js_error + 'a) \<Rightarrow> nat \<Rightarrow> nat
    \<Rightarrow> (js_error + 'a) \<times> nat" where
  "backoff_from retry work n 0 = (work n, n)"
| "backoff_from retry work n (Suc left) =
     (case work n of
        Inr v \<Rightarrow> (Inr v, n)
      | Inl e \<Rightarrow> if retry e then backoff_from retry work (Suc n) left else (Inl e, n))"

definition backoffCall :: "(nat \<Rightarrow> js_error + 'a) \<Rightarrow> (js_error + 'a) \<times> nat" where
  "backoffCall work = backoff_from retryIf work 0 failAfter"

section \<open>URL shorthand\<close>

text \<open>String primitives of JavaScript that the two functions use.\<close>

fun startsWith :: "string \<Rightarrow> string \<Rightarrow> bool" where
  "startsWith s [] = True"
| "startsWith [] (p # ps) = False"
| "startsWith (x # xs) (p # ps) = (x = p \<and> startsWith xs ps)"

text \<open>\<open>s.replace(pat, '')\<close> for a string pattern: the first occurrence is removed.\<close>

fun remove_first :: "string \<Rightarrow> string \<Rightarrow> string" where
  "remove_first pat [] = []"
| "remove_first pat (x # xs) =
     (if startsWith (x # xs) pat then drop (length pat) (x # xs) else x # remove_first pat xs)"

text \<open>\<open>s.split(c)\<close> for a one-character separator, and \<open>parts.join(sep)\<close>.\<close>

fun split_on :: "char \<Rightarrow> string \<Rightarrow> string list" where
  "split_on c [] = [[]]"
| "split_on c (x # xs) =
     (if x = c then [] # split_on c xs
      else (case split_on c xs of [] \<Rightarrow> [[x]] | p # ps \<Rightarrow> (x # p) # ps))"

fun join_with :: "string \<Rightarrow> string list \<Rightarrow> string" where
  "join_with sep [] = []"
| "join_with sep [p] = p"
| "join_with sep (p # q # ps) = p @ sep @ join_with sep (q # ps)"

text \<open>\<open>String(n)\<close> for a non-negative integer: its decimal digits.\<close>

definition digit_char :: "nat \<Rightarrow> char" where
  "digit_char n = ''0123456789'' ! n"

fun String_of_nat :: "nat \<Rightarrow> string" where
  "String_of_nat n =
     (if n < 10 then [digit_char n] else String_of_nat (n div 10) @ [digit_char (n mod 10)])"

text \<open>
  A plain object as an association list: \<open>obj[key] = val\<close> and \<open>{...obj, [key]: val}\<close>
  overwrite the value of a key that is present, in place, and append a new key.
  (JavaScript enumerates integer-like keys first, in ascending order; the keys of
  \<open>urlPartCache\<close> are \<open>1, 2, ...\<close> in the order of their insertion, so both orders agree.)
\<close>

fun obj_set :: "(string \<times> 'v) list \<Rightarrow> string \<Rightarrow> 'v \<Rightarrow> (string \<times> 'v) list" where
  "obj_set [] k v = [(k, v)]"
| "obj_set ((k', v') # kvs) k v =
     (if k' = k then (k, v) # kvs else (k', v') # obj_set kvs k v)"

definition str_or :: "string \<Rightarrow> string option \<Rightarrow> string" where
  \<comment> \<open>a value that may be \<open>null\<close> or \<open>undefined\<close>, converted to a string\<close>
  "str_or absent v = (case v of None \<Rightarrow> absent | Some s \<Rightarrow> s)"

text \<open>
  \<open>serializeUrl\<close>. \<open>url_path\<close> stands for \<open>urlParser.parse(url).path\<close> of Node's
  \<open>url\<close> module (\<open>None\<close> is \<open>null\<close>): the path and the query of the URL, without
  its fragment. A \<open>null\<close> path is used as the string \<open>null\<close>, both by \<open>replace\<close> and
  by the template string.
\<close>

definition serializeUrl :: "(string \<Rightarrow> string option) \<Rightarrow> string \<Rightarrow> downloader \<Rightarrow> string \<times> downloader" where
  "serializeUrl url_path url d =
     (let path = str_or ''null'' (url_path url);
          cacheablePart = remove_first path url;
          cacheEntry = find (\<lambda>(cacheId, value). value = cacheablePart) (urlPartCache d)
      in case cacheEntry of
           None \<Rightarrow>
             (let cacheId = String_of_nat (length (urlPartCache d) + 1)
              in (''_'' @ cacheId @ ''_'' @ path,
                  d\<lparr>urlPartCache := obj_set (urlPartCache d) cacheId cacheablePart\<rparr>))
         | Some (cacheId, value) \<Rightarrow> (''_'' @ cacheId @ ''_'' @ path, d))"

text \<open>
  \<open>deserializeUrl\<close>: the destructuring \<open>[, cacheId, ...pathParts] = url.split('_')\<close>
  skips the first part. A missing cache entry is \<open>undefined\<close>, which the template
  string prints as \<open>undefined\<close>.
\<close>

definition deserializeUrl :: "downloader \<Rightarrow> string \<Rightarrow> string" where
  "deserializeUrl d url =
     (if \<not> startsWith url ''_'' then url
      else (let parts = split_on CHR ''_'' url;
                cacheId = (if 1 < length parts then parts ! 1 else ''undefined'');
                path = join_with ''_'' (drop 2 parts);
                cachedPart = map_of (urlPartCache d) cacheId
            in str_or ''undefined'' cachedPart @ path))"

text \<open>
  What \<open>serializeUrl\<close> keeps true of \<open>urlPartCache\<close>: the ids are distinct and none
  contains the separator.
\<close>

definition cache_wf :: "downloader \<Rightarrow> bool" where
  "cache_wf d = (distinct (map fst (urlPartCache d))
     \<and> list_all (\<lambda>k. CHR ''_'' \<notin> set k) (map fst (urlPartCache d)))"

section \<open>Content download\<close>

text \<open>
  The collaborators of \<open>downloadContent\<close>, as functions: \<open>md5\<close> and \<open>path.join\<close>,
  the file reads and writes of the disk cache (\<open>readFile p = None\<close> when the read
  fails, \<open>writeFile p data = Some e\<close> when the write fails with \<open>e\<close>),
  \<open>JSON.stringify\<close> on response headers, and the outcome of the request run
  through \<open>backoffCall\<close> with \<open>getContentCb\<close>.
\<close>

record 'h download_env =
  md5 :: "string \<Rightarrow> string"
  path_join :: "string \<Rightarrow> string \<Rightarrow> string"
  readFile :: "string \<Rightarrow> string option"
  writeFile :: "string \<Rightarrow> string \<Rightarrow> js_error option"
  stringify_headers :: "'h \<Rightarrow> string"
  fetch :: "string \<Rightarrow> js_error + (string \<times> 'h)"

text \<open>
  Response headers are an object when they come from the network, and the text of
  the \<open>.headers\<close> file (or \<open>null\<close>) when they come from the disk cache.
\<close>

datatype 'h headers = FromOrigin 'h | FromCache "string option"

record 'h download =
  content :: string
  responseHeaders :: "'h headers"

datatype download_error =
    InvalidUrl string
  | FetchFailed js_error
  | FailedToCacheDownload js_error

datatype log_entry = LogInfo string | LogWarn string

text \<open>
  What the promise of \<open>downloadContent\<close> does: it resolves, it rejects, or it is
  still waiting in \<open>claimRequest\<close> for a free slot.
\<close>

datatype 'a promise = Resolves 'a | Rejects download_error | Waits

definition js_truthy_string :: "string option \<Rightarrow> bool" where
  \<comment> \<open>\<open>undefined\<close> and the empty string are falsy\<close>
  "js_truthy_string s = (case s of None \<Rightarrow> False | Some t \<Rightarrow> t \<noteq> [])"

text \<open>
  \<open>readFromDownloadCache\<close> throws without a cache directory and when the content
  file cannot be read (\<open>None\<close>); a failed read of the headers file yields \<open>null\<close>
  headers. With a directory it logs the lookup first.
\<close>

definition readFromDownloadCache :: "'h download_env \<Rightarrow> downloader \<Rightarrow> string
    \<Rightarrow> 'h download option \<times> log_entry list" where
  "readFromDownloadCache env d url =
     (if \<not> js_truthy_string (downloadCacheDirectory d) then (None, [])
      else (let filePath = path_join env (the (downloadCacheDirectory d)) (md5 env url)
            in (case readFile env filePath of
                  None \<Rightarrow> None
                | Some c \<Rightarrow>
                    Some \<lparr> content = c,
                           responseHeaders = FromCache (readFile env (filePath @ ''.headers'')) \<rparr>,
                [LogInfo ''Finding cached donwload''])))"

text \<open>
  \<open>writeToDownloadCache\<close>: two writes; the first failure is thrown. Without a
  directory \<open>path.join\<close> throws a \<open>TypeError\<close> of Node, with the code below.
\<close>

definition writeToDownloadCache :: "'h download_env \<Rightarrow> downloader \<Rightarrow> string \<Rightarrow> string \<times> 'h
    \<Rightarrow> js_error option" where
  "writeToDownloadCache env d url val =
     (case downloadCacheDirectory d of
        None \<Rightarrow> Some \<lparr> err_code = Some ''ERR_INVALID_ARG_TYPE'', err_status = None \<rparr>
      | Some dir \<Rightarrow>
          (let filePath = path_join env dir (md5 env url)
           in case writeFile env filePath (fst val) of
                Some e \<Rightarrow> Some e
              | None \<Rightarrow> writeFile env (filePath @ ''.headers'') (stringify_headers env (snd val))))"

text \<open>
  \<open>downloadContent\<close>, with the log lines that it and the two cache functions
  write (what \<open>backoffCall\<close> and \<open>getContentCb\<close> log belongs to \<open>fetch\<close>). The request
  holds a slot of the throttle from \<open>claimRequest\<close> until the callback's
  \<open>releaseRequest\<close>.
\<close>

definition downloadContent :: "'h download_env \<Rightarrow> string \<Rightarrow> downloader
    \<Rightarrow> 'h download promise \<times> downloader \<times> log_entry list" where
  "downloadContent env url0 d =
     (if url0 = [] then (Rejects (InvalidUrl url0), d, [])
      else
        (let url = deserializeUrl d url0;
             lookup = (if useDownloadCache d then readFromDownloadCache env d url else (None, []))
         in case fst lookup of
              Some cached \<Rightarrow> (Resolves cached, d, snd lookup @ [LogInfo ''Download cache hit''])
            | None \<Rightarrow>
                (case claimRequest d of
                   (False, d1) \<Rightarrow> (Waits, d1, snd lookup)
                 | (True, d1) \<Rightarrow>
                     (let d2 = releaseRequest d1
                      in case fetch env url of
                           Inl err \<Rightarrow>
                             (Rejects (FetchFailed err), d2, snd lookup @ [LogWarn ''Failed to get''])
                         | Inr val \<Rightarrow>
                             if useDownloadCache d2 \<and> js_truthy_string (downloadCacheDirectory d2)
                             then (case writeToDownloadCache env d2 url val of
                                     None \<Rightarrow>
                                       (Resolves \<lparr> content = fst val,
                                                    responseHeaders = FromOrigin (snd val) \<rparr>,
                                        d2, snd lookup @ [LogInfo ''Caching response''])
                                   | Some e \<Rightarrow>
                                       (Rejects (FailedToCacheDownload e), d2,
                                        snd lookup @ [LogInfo ''Caching response'',
                                                      LogWarn ''Failed to cache download'']))
                             else (Resolves \<lparr> content = fst val,
                                                responseHeaders = FromOrigin (snd val) \<rparr>,
                                   d2, snd lookup)))))"

section \<open>Article fetch\<close>

text \<open>
  \<open>getArticleUrl\<close>; \<open>enc\<close> stands for \<open>encodeURIComponent\<close>.
\<close>

definition getArticleUrl :: "(string \<Rightarrow> string) \<Rightarrow> downloader \<Rightarrow> string \<Rightarrow> bool \<Rightarrow> bool \<Rightarrow> string" where
  "getArticleUrl enc d articleId isMainPage force =
     (let useParsoidFallback = (force \<or> forceParsoidFallback d \<or> isMainPage)
      in if useParsoidFallback \<or> \<not> mcsAvailable d
         then parsoidFallbackUrl d @ enc articleId
         else mcsUrl d @ enc articleId)"

text \<open>
  The body of a JSON response as \<open>getArticle\<close> inspects it: its \<open>type\<close> is
  \<open>api_error\<close>, or it is any other document.
\<close>

datatype 'j article_json = ApiError | Document 'j

text \<open>
  What \<open>getArticle\<close> throws: the rejection of \<open>getJSON\<close> or an exception of
  \<open>renderArticle\<close> (an error object), or its own \<open>new Error("API Error when
  scraping [...]")\<close>, which has no \<open>response\<close>.
\<close>

datatype article_error = Thrown js_error | ApiErrorWhenScraping string

definition is_404 :: "article_error \<Rightarrow> bool" where
  "is_404 e = (case e of Thrown x \<Rightarrow> err_status x = Some 404 | ApiErrorWhenScraping u \<Rightarrow> False)"

text \<open>
  What is the same for every \<open>getArticle\<close> call of a run: \<open>encodeURIComponent\<close>
  and the main page title of the dump. What may differ from call to call: the
  outcome of \<open>getJSON\<close> (which may also differ between the first request and the
  retry, hence the flag), and \<open>renderArticle\<close>.
\<close>

record wiki =
  encodeURIComponent :: "string \<Rightarrow> string"
  mainPage :: string

record ('j, 'r) article_env =
  getJSON :: "bool \<Rightarrow> string \<Rightarrow> js_error + 'j article_json"
  renderArticle :: "'j \<Rightarrow> string \<Rightarrow> bool \<Rightarrow> js_error + 'r"

text \<open>One request of a \<open>getArticle\<close> call: the article, the URL and the reply.\<close>

record 'j request =
  req_article :: string
  req_url :: string
  req_reply :: "js_error + 'j article_json"

definition underscored :: "string \<Rightarrow> string" where
  \<comment> \<open>\<open>articleId.replace(/ /g, '_')\<close>\<close>
  "underscored s = map (\<lambda>c. if c = CHR '' '' then CHR ''_'' else c) s"

text \<open>
  \<open>getArticle\<close>. The result is what the promise settles with, the new state and
  the requests made. The recursive call passes \<open>true\<close>, and a call with \<open>true\<close>
  rethrows every error, so the recursion is one level deep.
\<close>

function getArticle :: "wiki \<Rightarrow> ('j, 'r) article_env \<Rightarrow> string \<Rightarrow> bool \<Rightarrow> downloader
    \<Rightarrow> (article_error + 'r) \<times> downloader \<times> 'j request list" where
  "getArticle w env articleId0 force d =
     (let articleId = underscored articleId0;
          isMainPage = (articleId = mainPage w);
          articleApiUrl = getArticleUrl (encodeURIComponent w) d articleId isMainPage force;
          reply = getJSON env force articleApiUrl;
          req = \<lparr> req_article = articleId, req_url = articleApiUrl, req_reply = reply \<rparr>;
          attempt =
            (case reply of
               Inl err \<Rightarrow> (Inl (Thrown err), d, force)
             | Inr ApiError \<Rightarrow>
                 (Inl (ApiErrorWhenScraping articleApiUrl), d\<lparr>forceParsoidFallback := True\<rparr>, True)
             | Inr (Document json) \<Rightarrow>
                 (case renderArticle env json articleId force of
                    Inl err \<Rightarrow> (Inl (Thrown err), d, force)
                  | Inr rendered \<Rightarrow> (Inr rendered, d, force)))
      in case attempt of
           (Inr rendered, d1, f) \<Rightarrow> (Inr rendered, d1, [req])
         | (Inl err, d1, f) \<Rightarrow>
             if f then (Inl err, d1, [req])
             else if is_404 err then (Inl err, d1, [req])
             else (case getArticle w env articleId True d1 of
                     (res, d2, reqs) \<Rightarrow> (res, d2, req # reqs)))"
  by pat_completeness auto
termination
  by (relation "measure (\<lambda>(w, env, a, force, d). if force then 0 else 1)")
     (auto split: sum.splits article_json.splits)

text \<open>
  A run of the scraper as far as articles go: \<open>getArticle\<close> calls one after the
  other, each with its own collaborators, on the state the previous call left.
\<close>

fun getArticles :: "wiki \<Rightarrow> (('j, 'r) article_env \<times> string \<times> bool) list \<Rightarrow> downloader
    \<Rightarrow> downloader \<times> 'j request list" where
  "getArticles w [] d = (d, [])"
| "getArticles w ((env, articleId, force) # calls) d =
     (case getArticle w env articleId force d of
        (res, d1, reqs) \<Rightarrow>
          (case getArticles w calls d1 of (d2, later) \<Rightarrow> (d2, reqs @ later)))"

text \<open>A request that went to the fallback (Parsoid) backend of the state \<open>d\<close>.\<close>

definition to_fallback :: "wiki \<Rightarrow> downloader \<Rightarrow> 'j request \<Rightarrow> bool" where
  "to_fallback w d r =
     (req_url r = parsoidFallbackUrl d @ encodeURIComponent w (req_article r))"

section \<open>JSON values\<close>

text \<open>
  The values the wiki API returns and the key-value store holds: what \<open>JSON.parse\<close>
  produces. Numbers are the integers (of the range in which JavaScript numbers are
  exact); an object is an association list in the order of its keys.
\<close>

datatype json =
    JNull
  | JBool bool
  | JNum int
  | JStr string
  | JArr "json list"
  | JObj "(string \<times> json) list"

text \<open>
  The truth value of \<open>obj[key]\<close>: \<open>undefined\<close> (the key is missing), \<open>null\<close>, \<open>false\<close>,
  \<open>0\<close> and the empty string are falsy, everything else is truthy.
\<close>

fun js_truthy :: "json option \<Rightarrow> bool" where
  "js_truthy None = False"
| "js_truthy (Some JNull) = False"
| "js_truthy (Some (JBool b)) = b"
| "js_truthy (Some (JNum n)) = (n \<noteq> 0)"
| "js_truthy (Some (JStr s)) = (s \<noteq> [])"
| "js_truthy (Some (JArr vs)) = True"
| "js_truthy (Some (JObj kvs)) = True"

section \<open>Continuation pages\<close>

text \<open>
  \<open>QueryMwRet\<close>: the details of each article, by title. A continuation token
  (\<open>ContinueOpts\<close> or \<open>QueryContinueOpts\<close>) is an object of which only the keys are read.
\<close>

type_synonym detail = "(string \<times> json) list"
type_synonym queryMwRet = "(string \<times> detail) list"

definition propsMap :: "(string \<times> string list) list" where
  "propsMap =
     [(''pageimages'', [''thumbnail'', ''pageimage'']),
      (''redirects'', [''redirects'']),
      (''coordinates'', [''coordinates'']),
      (''categories'', [''categories''])]"

text \<open>
  \<open>['subCategories'].concat(Object.keys(cont).reduce((acc, key) =>
  acc.concat(propsMap[key] || []), []))\<close>
\<close>

definition keysToKeep :: "(string \<times> json) list \<Rightarrow> string list" where
  "keysToKeep cont =
     [''subCategories''] @
     foldl (\<lambda>acc key. acc @ (case map_of propsMap key of None \<Rightarrow> [] | Some props \<Rightarrow> props))
       [] (map fst cont)"

text \<open>The inner \<open>reduce\<close>: the kept keys whose value in \<open>detail\<close> is truthy.\<close>

definition newDetail :: "string list \<Rightarrow> detail \<Rightarrow> detail" where
  "newDetail keys detail =
     foldl (\<lambda>acc key.
              if \<not> js_truthy (map_of detail key) then acc
              else obj_set acc key (the (map_of detail key)))
       [] keys"

definition stripNonContinuedProps :: "queryMwRet \<Rightarrow> (string \<times> json) list \<Rightarrow> queryMwRet" where
  "stripNonContinuedProps articleDetails cont =
     foldl (\<lambda>acc (aId, detail). obj_set acc aId (newDetail (keysToKeep cont) detail))
       [] articleDetails"

text \<open>
  The branch of \<open>getArticleDetailsIds\<close> and of \<open>getArticleDetailsNS\<close> for a page
  that is not the last one (\<open>resp.continue\<close>, or a \<open>query-continue\<close> with a key
  other than \<open>allpages\<close>). Both call \<open>this.stripNonContinuedProps(processedResponse)\<close>
  with one argument, so \<open>cont\<close> takes its default \<open>{}\<close>. \<open>deepmerge\<close> is the function
  of the package of that name; \<open>result\<close> is \<open>None\<close> while it is \<open>undefined\<close>. The
  step yields the new \<open>result\<close> and the continuation kept for the next query.
\<close>

definition mergeContinuedPage :: "(queryMwRet \<Rightarrow> queryMwRet \<Rightarrow> queryMwRet) \<Rightarrow> queryMwRet option
    \<Rightarrow> queryMwRet \<Rightarrow> (string \<times> json) list \<Rightarrow> queryMwRet \<times> (string \<times> json) list" where
  "mergeContinuedPage deepmerge result processedResponse resp_continue =
     (let continuation = resp_continue;
          relevantDetails = stripNonContinuedProps processedResponse []
      in (case result of None \<Rightarrow> relevantDetails | Some r \<Rightarrow> deepmerge r relevantDetails,
          continuation))"

section \<open>JSON text\<close>

text \<open>
  \<open>JSON.stringify\<close> on the values above. A string is quoted; the quote, the
  backslash and the control characters below U+0020 are escaped, the latter as
  \<open>\b \t \n \f \r\<close> or as \<open>\u00XX\<close> with lower-case digits. Arrays and objects are written
  without white space. \<open>CHR 0x22\<close> is the double quote, \<open>CHR 0x5C\<close> the backslash.
\<close>

definition escapes :: "(char \<times> string) list" where
  "escapes =
     [(CHR 0x22, [CHR 0x5C, CHR 0x22]), (CHR 0x5C, [CHR 0x5C, CHR 0x5C]),
      (CHR 0x08, CHR 0x5C # ''b''), (CHR 0x09, CHR 0x5C # ''t''), (CHR 0x0A, CHR 0x5C # ''n''),
      (CHR 0x0C, CHR 0x5C # ''f''), (CHR 0x0D, CHR 0x5C # ''r''),
      (CHR 0x00, CHR 0x5C # ''u0000''), (CHR 0x01, CHR 0x5C # ''u0001''),
      (CHR 0x02, CHR 0x5C # ''u0002''), (CHR 0x03, CHR 0x5C # ''u0003''),
      (CHR 0x04, CHR 0x5C # ''u0004''), (CHR 0x05, CHR 0x5C # ''u0005''),
      (CHR 0x06, CHR 0x5C # ''u0006''), (CHR 0x07, CHR 0x5C # ''u0007''),
      (CHR 0x0B, CHR 0x5C # ''u000b''), (CHR 0x0E, CHR 0x5C # ''u000e''),
      (CHR 0x0F, CHR 0x5C # ''u000f''), (CHR 0x10, CHR 0x5C # ''u0010''),
      (CHR 0x11, CHR 0x5C # ''u0011''), (CHR 0x12, CHR 0x5C # ''u0012''),
      (CHR 0x13, CHR 0x5C # ''u0013''), (CHR 0x14, CHR 0x5C # ''u0014''),
      (CHR 0x15, CHR 0x5C # ''u0015''), (CHR 0x16, CHR 0x5C # ''u0016''),
      (CHR 0x17, CHR 0x5C # ''u0017''), (CHR 0x18, CHR 0x5C # ''u0018''),
      (CHR 0x19, CHR 0x5C # ''u0019''), (CHR 0x1A, CHR 0x5C # ''u001a''),
      (CHR 0x1B, CHR 0x5C # ''u001b''), (CHR 0x1C, CHR 0x5C # ''u001c''),
      (CHR 0x1D, CHR 0x5C # ''u001d''), (CHR 0x1E, CHR 0x5C # ''u001e''),
      (CHR 0x1F, CHR 0x5C # ''u001f'')]"

definition escape_char :: "char \<Rightarrow> string" where
  "escape_char c = (case map_of escapes c of None \<Rightarrow> [c] | Some e \<Rightarrow> e)"

definition quote :: "string \<Rightarrow> string" where
  "quote s = CHR 0x22 # concat (map escape_char s) @ [CHR 0x22]"

fun JSON_stringify :: "json \<Rightarrow> string"
  and stringify_elems :: "json list \<Rightarrow> string"
  and stringify_members :: "(string \<times> json) list \<Rightarrow> string" where
  "JSON_stringify JNull = ''null''"
| "JSON_stringify (JBool b) = (if b then ''true'' else ''false'')"
| "JSON_stringify (JNum n) =
     (if n < 0 then CHR ''-'' # String_of_nat (nat (- n)) else String_of_nat (nat n))"
| "JSON_stringify (JStr s) = quote s"
| "JSON_stringify (JArr vs) = ''['' @ stringify_elems vs @ '']''"
| "JSON_stringify (JObj kvs) = ''{'' @ stringify_members kvs @ ''}''"
| "stringify_elems [] = []"
| "stringify_elems [v] = JSON_stringify v"
| "stringify_elems (v # w # vs) = JSON_stringify v @ '','' @ stringify_elems (w # vs)"
| "stringify_members [] = []"
| "stringify_members [(k, v)] = quote k @ '':'' @ JSON_stringify v"
| "stringify_members ((k, v) # kv # kvs) =
     quote k @ '':'' @ JSON_stringify v @ '','' @ stringify_members (kv # kvs)"

text \<open>
  \<open>JSON.parse\<close>. A parser yields a value and the text behind it, a \<open>SyntaxError\<close>,
  or \<open>Unsupported\<close> for a text that \<open>JSON.parse\<close> may accept but that lies outside
  the values modelled here (a number with a fraction or an exponent, an escape
  \<open>\uXXXX\<close> above \<open>00FF\<close>) or that exhausts the fuel of the recursion.
\<close>

datatype 'a presult = Ok 'a string | SyntaxError | Unsupported

definition simple_escapes :: "(char \<times> char) list" where
  "simple_escapes =
     [(CHR 0x22, CHR 0x22), (CHR 0x5C, CHR 0x5C), (CHR ''/'', CHR ''/''), (CHR ''b'', CHR 0x08),
      (CHR ''f'', CHR 0x0C), (CHR ''n'', CHR 0x0A), (CHR ''r'', CHR 0x0D), (CHR ''t'', CHR 0x09)]"

definition hex_val :: "char \<Rightarrow> nat option" where
  "hex_val c = map_of
     [(CHR ''0'', 0), (CHR ''1'', 1), (CHR ''2'', 2), (CHR ''3'', 3), (CHR ''4'', 4),
      (CHR ''5'', 5), (CHR ''6'', 6), (CHR ''7'', 7), (CHR ''8'', 8), (CHR ''9'', 9),
      (CHR ''a'', 10), (CHR ''b'', 11), (CHR ''c'', 12), (CHR ''d'', 13), (CHR ''e'', 14),
      (CHR ''f'', 15), (CHR ''A'', 10), (CHR ''B'', 11), (CHR ''C'', 12), (CHR ''D'', 13),
      (CHR ''E'', 14), (CHR ''F'', 15)] c"

definition char_of_code :: "nat \<Rightarrow> char" where
  "char_of_code n =
     Char (odd n) (odd (n div 2)) (odd (n div 4)) (odd (n div 8))
          (odd (n div 16)) (odd (n div 32)) (odd (n div 64)) (odd (n div 128))"

fun parse_chars :: "string \<Rightarrow> string \<Rightarrow> string presult" where
  "parse_chars acc [] = SyntaxError"
| "parse_chars acc [c] = (if c = CHR 0x22 then Ok acc [] else SyntaxError)"
| "parse_chars acc (c # e # cs) =
     (if c = CHR 0x22 then Ok acc (e # cs)
      else if c = CHR 0x5C then
        (case map_of simple_escapes e of
           Some x \<Rightarrow> parse_chars (acc @ [x]) cs
         | None \<Rightarrow>
             if e = CHR ''u'' then
               (case cs of
                  h1 # h2 # h3 # h4 # rest \<Rightarrow>
                    (case (hex_val h1, hex_val h2, hex_val h3, hex_val h4) of
                       (Some a, Some b, Some c', Some d) \<Rightarrow>
                         if ((a * 16 + b) * 16 + c') * 16 + d < 256
                         then parse_chars (acc @ [char_of_code (((a * 16 + b) * 16 + c') * 16 + d)]) rest
                         else Unsupported
                     | _ \<Rightarrow> SyntaxError)
                | _ \<Rightarrow> SyntaxError)
             else SyntaxError)
      else if map_of escapes c \<noteq> None then SyntaxError
      else parse_chars (acc @ [c]) (e # cs))"

text \<open>
  Numbers: an optional minus sign and a run of digits without a leading zero.
\<close>

definition is_digit :: "char \<Rightarrow> bool" where
  "is_digit c = (c \<in> set ''0123456789'')"

definition digit_val :: "char \<Rightarrow> nat" where
  "digit_val c = (case hex_val c of None \<Rightarrow> 0 | Some n \<Rightarrow> n)"

definition nat_of_digits :: "string \<Rightarrow> nat" where
  "nat_of_digits ds = foldl (\<lambda>n c. 10 * n + digit_val c) 0 ds"

definition parse_number :: "string \<Rightarrow> json presult" where
  "parse_number s =
     (let neg = startsWith s ''-'';
          s1 = (if neg then tl s else s);
          ds = takeWhile is_digit s1;
          rest = dropWhile is_digit s1
      in if ds = [] then SyntaxError
         else if hd ds = CHR ''0'' \<and> 1 < length ds then SyntaxError
         else if rest \<noteq> [] \<and> hd rest \<in> set ''.eE'' then Unsupported
         else Ok (JNum (if neg then - int (nat_of_digits ds) else int (nat_of_digits ds))) rest)"

text \<open>
  Values. White space may precede a value and each punctuation mark. A key that
  occurs twice in an object keeps its first position and its last value. The fuel
  bounds the depth of the recursion; \<open>JSON_parse\<close> supplies more than a text of its
  length can use, and accepts white space only behind the value.
\<close>

definition skip_ws :: "string \<Rightarrow> string" where
  "skip_ws s = dropWhile (\<lambda>c. c \<in> set [CHR '' '', CHR 0x09, CHR 0x0A, CHR 0x0D]) s"

definition parse_literal :: "string \<Rightarrow> json \<Rightarrow> string \<Rightarrow> json presult" where
  "parse_literal word v s = (if startsWith s word then Ok v (drop (length word) s) else SyntaxError)"

fun parse_value :: "nat \<Rightarrow> string \<Rightarrow> json presult"
  and parse_elems :: "nat \<Rightarrow> json list \<Rightarrow> string \<Rightarrow> json presult"
  and parse_members :: "nat \<Rightarrow> (string \<times> json) list \<Rightarrow> string \<Rightarrow> json presult" where
  "parse_value 0 s = Unsupported"
| "parse_value (Suc n) s =
     (case skip_ws s of
        [] \<Rightarrow> SyntaxError
      | c # cs \<Rightarrow>
          if c = CHR ''n'' then parse_literal ''null'' JNull (c # cs)
          else if c = CHR ''t'' then parse_literal ''true'' (JBool True) (c # cs)
          else if c = CHR ''f'' then parse_literal ''false'' (JBool False) (c # cs)
          else if c = CHR 0x22 then
            (case parse_chars [] cs of
               Ok str rest \<Rightarrow> Ok (JStr str) rest
             | SyntaxError \<Rightarrow> SyntaxError
             | Unsupported \<Rightarrow> Unsupported)
          else if c = CHR ''['' then
            (if startsWith (skip_ws cs) '']'' then Ok (JArr []) (tl (skip_ws cs))
             else parse_elems n [] cs)
          else if c = CHR ''{'' then
            (if startsWith (skip_ws cs) ''}'' then Ok (JObj []) (tl (skip_ws cs))
             else parse_members n [] cs)
          else if c = CHR ''-'' \<or> is_digit c then parse_number (c # cs)
          else SyntaxError)"
| "parse_elems 0 acc s = Unsupported"
| "parse_elems (Suc n) acc s =
     (case parse_value n s of
        Ok v rest \<Rightarrow>
          (case skip_ws rest of
             [] \<Rightarrow> SyntaxError
           | c # rest' \<Rightarrow>
               if c = CHR '','' then parse_elems n (acc @ [v]) rest'
               else if c = CHR '']'' then Ok (JArr (acc @ [v])) rest'
               else SyntaxError)
      | SyntaxError \<Rightarrow> SyntaxError
      | Unsupported \<Rightarrow> Unsupported)"
| "parse_members 0 acc s = Unsupported"
| "parse_members (Suc n) acc s =
     (case skip_ws s of
        [] \<Rightarrow> SyntaxError
      | q # s1 \<Rightarrow>
          if q \<noteq> CHR 0x22 then SyntaxError
          else (case parse_chars [] s1 of
                  Ok key s2 \<Rightarrow>
                    (case skip_ws s2 of
                       [] \<Rightarrow> SyntaxError
                     | colon # s3 \<Rightarrow>
                         if colon \<noteq> CHR '':'' then SyntaxError
                         else (case parse_value n s3 of
                                 Ok v rest \<Rightarrow>
                                   (case skip_ws rest of
                                      [] \<Rightarrow> SyntaxError
                                    | c # rest' \<Rightarrow>
                                        if c = CHR '','' then parse_members n (obj_set acc key v) rest'
                                        else if c = CHR ''}'' then Ok (JObj (obj_set acc key v)) rest'
                                        else SyntaxError)
                               | SyntaxError \<Rightarrow> SyntaxError
                               | Unsupported \<Rightarrow> Unsupported))
                | SyntaxError \<Rightarrow> SyntaxError
                | Unsupported \<Rightarrow> Unsupported))"

datatype parsed = Parsed json | JSON_SyntaxError | NotModelled

definition JSON_parse :: "string \<Rightarrow> parsed" where
  "JSON_parse text =
     (case parse_value (Suc (length text)) text of
        Ok v rest \<Rightarrow> if skip_ws rest = [] then Parsed v else JSON_SyntaxError
      | SyntaxError \<Rightarrow> JSON_SyntaxError
      | Unsupported \<Rightarrow> NotModelled)"

section \<open>Key-value store: get and set\<close>

text \<open>
  The Redis client as \<open>RedisKvs\<close> uses it: either every command fails with the
  error \<open>failing\<close>, or commands act on the hashes, one per table name. \<open>hget\<close> of a
  field that is not there replies \<open>null\<close>.
\<close>

record redis =
  failing :: "js_error option"
  hashes :: "string \<Rightarrow> string \<Rightarrow> string option"

datatype 'a kvs_result = ResolvedWith 'a | RejectedWith js_error | CallbackThrows | OutsideModel

text \<open>
  What the promise of \<open>get\<close> does: it resolves, it rejects with the error of the
  command, or \<open>JSON.parse\<close> throws inside the callback and the promise is never
  settled. \<open>OutsideModel\<close> stands for a stored text outside the modelled values.
\<close>

fun typeof_string :: "json \<Rightarrow> bool" where
  "typeof_string (JStr s) = True"
| "typeof_string v = False"

definition read_back :: "string \<Rightarrow> json kvs_result" where
  "read_back text =
     (case JSON_parse text of
        Parsed v \<Rightarrow> ResolvedWith v
      | JSON_SyntaxError \<Rightarrow> CallbackThrows
      | NotModelled \<Rightarrow> OutsideModel)"

text \<open>
  \<open>get\<close>: \<open>resolve(JSON.parse(val))\<close>, where \<open>JSON.parse\<close> converts its argument to a
  string first, so a \<open>null\<close> reply is parsed as the text \<open>null\<close>.
\<close>

definition RedisKvs_get :: "string \<Rightarrow> redis \<Rightarrow> string \<Rightarrow> json kvs_result" where
  "RedisKvs_get dbName r prop =
     (case failing r of
        Some err \<Rightarrow> RejectedWith err
      | None \<Rightarrow> read_back (str_or ''null'' (hashes r dbName prop)))"

text \<open>
  \<open>set\<close>: \<open>typeof val !== 'string' ? JSON.stringify(val) : val\<close> is stored with
  \<open>hset\<close>, whose reply (the number of fields added) resolves the promise.
\<close>

definition RedisKvs_set :: "string \<Rightarrow> redis \<Rightarrow> string \<Rightarrow> json \<Rightarrow> int kvs_result \<times> redis" where
  "RedisKvs_set dbName r prop val =
     (let normalisedVal = (case val of JStr s \<Rightarrow> s | _ \<Rightarrow> JSON_stringify val)
      in case failing r of
           Some err \<Rightarrow> (RejectedWith err, r)
         | None \<Rightarrow>
             (ResolvedWith (if hashes r dbName prop = None then 1 else 0),
              r\<lparr>hashes := (hashes r)(dbName := (hashes r dbName)(prop \<mapsto> normalisedVal))\<rparr>))"

text \<open>
  Well-formed values: the keys of every object are distinct, as they are in any
  object of the language. The other notions serve the proofs: the fuel a value
  needs to be parsed back, the characters that may follow a value in a text, and
  the characters a value starts with.
\<close>

fun wf_json :: "json \<Rightarrow> bool"
  and wf_elems :: "json list \<Rightarrow> bool"
  and wf_members :: "(string \<times> json) list \<Rightarrow> bool" where
  "wf_json (JArr vs) = wf_elems vs"
| "wf_json (JObj kvs) = (distinct (map fst kvs) \<and> wf_members kvs)"
| "wf_json v = True"
| "wf_elems [] = True"
| "wf_elems (v # vs) = (wf_json v \<and> wf_elems vs)"
| "wf_members [] = True"
| "wf_members ((k, v) # kvs) = (wf_json v \<and> wf_members kvs)"

fun need :: "json \<Rightarrow> nat"
  and need_elems :: "json list \<Rightarrow> nat"
  and need_members :: "(string \<times> json) list \<Rightarrow> nat" where
  "need (JArr vs) = Suc (need_elems vs)"
| "need (JObj kvs) = Suc (need_members kvs)"
| "need v = 1"
| "need_elems [] = 0"
| "need_elems (v # vs) = Suc (need v + need_elems vs)"
| "need_members [] = 0"
| "need_members ((k, v) # kvs) = Suc (need v + need_members kvs)"

definition starts_value :: "string \<Rightarrow> bool" where
  "starts_value s = (s \<noteq> [] \<and> hd s \<in> set (CHR 0x22 # ''ntf[{-0123456789''))"

definition delim :: "string \<Rightarrow> bool" where
  "delim rest = (rest = [] \<or> hd rest \<in> set '',]}'')"

section \<open>Key-value store: the concurrent scan\<close>

text \<open>
  The store's side of \<open>HSCAN\<close>: the table is served in batches, a cursor is the
  number of the next batch, and the reply to the last batch (or to a scan of an
  empty table) carries the cursor \<open>0\<close>, which is where a scan starts. The cursor
  \<open>0\<close> stands for the string \<open>'0'\<close> of the source.
\<close>

definition hscan :: "'a list list \<Rightarrow> nat \<Rightarrow> nat \<times> 'a list" where
  "hscan bs c =
     (if c < length bs then (if Suc c < length bs then Suc c else 0, bs ! c) else (0, []))"

definition pass_scans :: "'a list list \<Rightarrow> nat" where
  \<comment> \<open>the number of scans from cursor 0 to the reply that carries cursor 0 again\<close>
  "pass_scans bs = max 1 (length bs)"

text \<open>
  One run of \<open>iterateItems\<close> under cooperative scheduling. A worker is in its
  \<open>await this.scan()\<close>, in its \<open>await func(...)\<close>, or has returned. \<open>pendingScan\<close> is the
  chain of promises of \<open>scan\<close>: the workers whose call has not been answered, oldest
  first; the next \<open>hscan\<close> request is sent with the cursor the previous reply stored
  in \<open>scanCursor\<close>. \<open>handled\<close> collects the items passed to \<open>func\<close>, \<open>scans\<close> counts the
  replies of \<open>hscan\<close>, \<open>lateCalls\<close> the calls of \<open>this.scan()\<close> made while \<open>hasLooped\<close>
  was already set. (\<open>hscan\<close> is taken not to fail, and \<open>JSON.parse\<close> of a stored value and \<open>func\<close>
  not to throw.)
\<close>

datatype wstate = AwaitingScan | InFunc | Returned

record 'a scan_state =
  scanCursor :: nat
  hasLooped :: bool
  pendingScan :: "nat list"
  workers :: "wstate list"
  handled :: "'a list"
  scans :: nat
  lateCalls :: nat

text \<open>
  The start of \<open>iterateItems(numWorkers, func)\<close> on an instance whose \<open>scanCursor\<close>
  is \<open>c\<close> (a new instance has \<open>'0'\<close>): \<open>mapLimit\<close> starts all workers, and each calls
  \<open>this.scan()\<close> at once.
\<close>

definition iterateItems_start :: "nat \<Rightarrow> nat \<Rightarrow> 'a scan_state" where
  "iterateItems_start c numWorkers =
     \<lparr> scanCursor = c, hasLooped = False, pendingScan = [0..<numWorkers],
       workers = replicate numWorkers AwaitingScan, handled = [], scans = 0, lateCalls = 0 \<rparr>"

text \<open>
  What can happen next. \<open>ScanReply\<close>: the store answers the oldest pending scan;
  the callback stores the cursor, and the worker that awaited the reply returns if
  \<open>hasLooped\<close> is set, and otherwise sets \<open>hasLooped\<close> on cursor \<open>0\<close> and passes the
  items to \<open>func\<close>. \<open>FuncDone w\<close>: the \<open>func\<close> of worker \<open>w\<close> resolves and the worker
  goes round its loop, calling \<open>this.scan()\<close> again. An event that cannot happen in
  the state yields \<open>None\<close>.
\<close>

datatype scan_event = ScanReply | FuncDone nat

fun scan_step :: "'a list list \<Rightarrow> 'a scan_state \<Rightarrow> scan_event \<Rightarrow> 'a scan_state option" where
  "scan_step bs s ScanReply =
     (case pendingScan s of
        [] \<Rightarrow> None
      | w # rest \<Rightarrow>
          (let cursor = fst (hscan bs (scanCursor s));
               items = snd (hscan bs (scanCursor s));
               s1 = s\<lparr>scanCursor := cursor, pendingScan := rest, scans := scans s + 1\<rparr>
           in if hasLooped s1 then Some (s1\<lparr>workers := (workers s1)[w := Returned]\<rparr>)
              else Some (s1\<lparr>hasLooped := (if cursor = 0 then True else hasLooped s1),
                             handled := handled s1 @ items,
                             workers := (workers s1)[w := InFunc]\<rparr>)))"
| "scan_step bs s (FuncDone w) =
     (if w < length (workers s) \<and> workers s ! w = InFunc
      then Some (s\<lparr>pendingScan := pendingScan s @ [w],
                    workers := (workers s)[w := AwaitingScan],
                    lateCalls := lateCalls s + (if hasLooped s then 1 else 0)\<rparr>)
      else None)"

fun scan_run :: "'a list list \<Rightarrow> 'a scan_state \<Rightarrow> scan_event list \<Rightarrow> 'a scan_state option" where
  "scan_run bs s [] = Some s"
| "scan_run bs s (e # es) =
     (case scan_step bs s e of None \<Rightarrow> None | Some s' \<Rightarrow> scan_run bs s' es)"

text \<open>
  With one worker there is one schedule: a reply, the completion of \<open>func\<close>, and
  so on, \<open>k\<close> times, and the reply that the worker discards.
\<close>

definition single_worker_run :: "nat \<Rightarrow> scan_event list" where
  "single_worker_run k = concat (replicate k [ScanReply, FuncDone 0]) @ [ScanReply]"

definition finished :: "'a scan_state \<Rightarrow> bool" where
  \<comment> \<open>every worker has returned: the promise of \<open>iterateItems\<close> resolves\<close>
  "finished s = list_all (\<lambda>x. x = Returned) (workers s)"

text \<open>
  The invariant of a run with \<open>W\<close> workers that started at cursor \<open>0\<close>, and the
  number of events still ahead of a state at most.
\<close>

definition scan_inv :: "'a list list \<Rightarrow> nat \<Rightarrow> 'a scan_state \<Rightarrow> bool" where
  "scan_inv bs W s =
     (length (workers s) = W \<and> distinct (pendingScan s) \<and>
      set (pendingScan s) = {w. w < W \<and> workers s ! w = AwaitingScan} \<and>
      (if hasLooped s
       then handled s = concat bs
          \<and> scans s = pass_scans bs + count_list (workers s) Returned
          \<and> 1 \<le> lateCalls s + count_list (workers s) InFunc
          \<and> lateCalls s + count_list (workers s) InFunc \<le> W
       else scans s < pass_scans bs \<and> scanCursor s = scans s
          \<and> handled s = concat (take (scans s) bs)
          \<and> count_list (workers s) Returned = 0 \<and> lateCalls s = 0))"

definition scan_measure :: "'a list list \<Rightarrow> nat \<Rightarrow> 'a scan_state \<Rightarrow> nat" where
  "scan_measure bs W s = 2 * (pass_scans bs + W - scans s) + count_list (workers s) InFunc"

section \<open>Properties of the request throttle\<close>

lemma newMaxActiveRequests_int: "newMaxActiveRequests c = max ((9 * c + 9) div 10) 1"
proof -
  have "\<lceil>real_of_int c * (9 / 10)\<rceil> = (9 * c + 9) div 10"
    by linarith
  then show ?thesis by (simp add: newMaxActiveRequests_def)
qed

lemma newMaxActiveRequests_le: "1 \<le> c \<Longrightarrow> newMaxActiveRequests c \<le> c"
  unfolding newMaxActiveRequests_int by simp

lemma newMaxActiveRequests_ge1: "1 \<le> newMaxActiveRequests c"
  unfolding newMaxActiveRequests_int by simp

lemma errHandler_429:
  "err_status e = Some 429 \<Longrightarrow>
     maxActiveRequests (fst (errHandler e d)) = max \<lceil>real_of_int (maxActiveRequests d) * (9 / 10)\<rceil> 1"
  by (simp add: errHandler_def newMaxActiveRequests_def)

lemma throttle_step_inv: "throttle_inv c0 d \<Longrightarrow> throttle_inv c0 (throttle_step d ev)"
  by (cases ev) (auto simp: throttle_inv_def claimRequest_def releaseRequest_def errHandler_def
      dest: newMaxActiveRequests_le intro: newMaxActiveRequests_ge1
        order_trans[OF newMaxActiveRequests_le])

lemma throttle_run_inv: "throttle_inv c0 d \<Longrightarrow> throttle_inv c0 (throttle_run d evs)"
  unfolding throttle_run_def by (induction evs arbitrary: d) (auto simp: throttle_step_inv)

lemma throttle_step_le:
  "ev \<noteq> RateLimited \<Longrightarrow> activeRequests d \<le> maxActiveRequests d \<Longrightarrow>
     activeRequests (throttle_step d ev) \<le> maxActiveRequests (throttle_step d ev)"
  by (cases ev) (auto simp: claimRequest_def releaseRequest_def)

lemma throttle_run_le:
  "RateLimited \<notin> set evs \<Longrightarrow> activeRequests d \<le> maxActiveRequests d \<Longrightarrow>
     activeRequests (throttle_run d evs) \<le> maxActiveRequests (throttle_run d evs)"
  unfolding throttle_run_def by (induction evs arbitrary: d) (auto simp: throttle_step_le)

text \<open>
  Claim C6, as stated, fails: ten requests are admitted under the ceiling 10 of a
  downloader of speed 1, one of them is answered 429, and the ceiling drops to 9
  while ten requests are still in flight.
\<close>

theorem throttle_bound_counterexample:
  "maxActiveRequests
     (throttle_run (new_Downloader [] [] 1 False None) (replicate 10 Claim @ [RateLimited]))
   < activeRequests
     (throttle_run (new_Downloader [] [] 1 False None) (replicate 10 Claim @ [RateLimited]))"
  by (simp add: throttle_run_def new_Downloader_def claimRequest_def errHandler_def
      newMaxActiveRequests_int numeral_eq_Suc)

text \<open>
  Claim C6, amended. For a downloader of speed at least 1 and every sequence of
  \<open>claimRequest\<close> polls, \<open>releaseRequest\<close> calls and rate-limit shrinks:
  \<open>activeRequests\<close> never exceeds the first ceiling \<open>speed * 10\<close>; as long as no
  shrink has happened it never exceeds \<open>maxActiveRequests\<close>; and a poll of
  \<open>claimRequest\<close> admits a request only when the count stays within the ceiling of
  that moment. (A shrink does not cancel requests already in flight, so the count
  may exceed the lowered ceiling.)
\<close>

theorem throttle_bound:
  assumes "1 \<le> speed"
  shows "activeRequests (throttle_run (new_Downloader b a speed uc cd) evs) \<le> speed * 10
    \<and> (RateLimited \<notin> set evs \<longrightarrow>
         activeRequests (throttle_run (new_Downloader b a speed uc cd) evs)
         \<le> maxActiveRequests (throttle_run (new_Downloader b a speed uc cd) evs))
    \<and> (fst (claimRequest d) \<longrightarrow>
         activeRequests (snd (claimRequest d)) \<le> maxActiveRequests (snd (claimRequest d)))"
proof (intro conjI impI)
  have "throttle_inv (speed * 10) (new_Downloader b a speed uc cd)"
    using assms by (simp add: throttle_inv_def new_Downloader_def)
  then have "throttle_inv (speed * 10) (throttle_run (new_Downloader b a speed uc cd) evs)"
    by (rule throttle_run_inv)
  then show "activeRequests (throttle_run (new_Downloader b a speed uc cd) evs) \<le> speed * 10"
    by (simp add: throttle_inv_def)
next
  assume "RateLimited \<notin> set evs"
  then show "activeRequests (throttle_run (new_Downloader b a speed uc cd) evs)
      \<le> maxActiveRequests (throttle_run (new_Downloader b a speed uc cd) evs)"
    by (rule throttle_run_le) (use assms in \<open>simp add: new_Downloader_def\<close>)
next
  assume "fst (claimRequest d)"
  then show "activeRequests (snd (claimRequest d)) \<le> maxActiveRequests (snd (claimRequest d))"
    by (simp add: claimRequest_def split: if_splits)
qed

theorem throttle_bound_witness:
  "(1::int) \<le> 1
   \<and> activeRequests (throttle_run (new_Downloader [] [] 1 False None) [Claim, Claim, Release]) \<le> 1 * 10
   \<and> RateLimited \<notin> set [Claim, Claim, Release]
   \<and> activeRequests (throttle_run (new_Downloader [] [] 1 False None) [Claim, Claim, Release])
      \<le> maxActiveRequests (throttle_run (new_Downloader [] [] 1 False None) [Claim, Claim, Release])
   \<and> fst (claimRequest (new_Downloader [] [] 1 False None))
   \<and> activeRequests (snd (claimRequest (new_Downloader [] [] 1 False None)))
      \<le> maxActiveRequests (snd (claimRequest (new_Downloader [] [] 1 False None)))"
  using throttle_bound [of 1 "[]" "[]" False None "[Claim, Claim, Release]"
      "new_Downloader [] [] 1 False None"]
  by (simp add: claimRequest_def new_Downloader_def)

text \<open>
  Claim C7 (every 429 response lowers the ceiling to \<open>max(ceil(0.9 * ceiling), 1)\<close>)
  does not hold on the JSON path. When the request of \<open>getJSONCb\<close> is rejected with
  status 429 and the handler returns normally, the error goes to the handler
  through the second argument of \<open>then\<close> and the state is left as it was: the
  branch that lowers the ceiling is never reached. (\<open>errHandler\<close>, on the content
  path, does lower it: \<open>errHandler_429\<close>.)
\<close>

theorem getJSONCb_ignores_429:
  "getJSONCb (Suc fuel) (\<lambda>n. Rejected \<lparr> err_code = c, err_status = Some 429 \<rparr>)
       (\<lambda>call. None) n d
     = Some (d, [HandlerErr \<lparr> err_code = c, err_status = Some 429 \<rparr>])"
  by simp

section \<open>Properties of the backoff policy\<close>

lemma backoff_from_count: "snd (backoff_from r w n left) \<le> n + left"
proof (induction left arbitrary: n)
  case 0
  then show ?case by simp
next
  case (Suc left)
  from Suc.IH[of "Suc n"] show ?case by (auto split: sum.splits)
qed

lemma backoff_from_last: "fst (backoff_from r w n left) = w (snd (backoff_from r w n left))"
  by (induction left arbitrary: n) (auto split: sum.splits)

lemma backoff_from_all_fail:
  "(\<And>m. n \<le> m \<Longrightarrow> m \<le> n + left \<Longrightarrow> \<exists>e. w m = Inl e \<and> r e)
     \<Longrightarrow> snd (backoff_from r w n left) = n + left"
proof (induction left arbitrary: n)
  case 0
  then show ?case by simp
next
  case (Suc left)
  from Suc.prems[of n] obtain e where e: "w n = Inl e" "r e" by auto
  have "snd (backoff_from r w (Suc n) left) = Suc n + left"
    by (rule Suc.IH) (use Suc.prems in auto)
  with e show ?case by simp
qed

lemma backoff_from_earlier:
  "n \<le> m \<Longrightarrow> m < snd (backoff_from r w n left) \<Longrightarrow> \<exists>e. w m = Inl e \<and> r e"
proof (induction left arbitrary: n)
  case 0
  then show ?case by simp
next
  case (Suc left)
  show ?case
  proof (cases "m = n")
    case True
    with Suc.prems show ?thesis by (auto split: sum.splits if_splits)
  next
    case False
    with Suc.prems have "Suc n \<le> m" by simp
    moreover from Suc.prems have "m < snd (backoff_from r w (Suc n) left)"
      by (auto split: sum.splits if_splits)
    ultimately show ?thesis by (rule Suc.IH)
  qed
qed

lemma backoff_from_stop:
  "snd (backoff_from r w n left) < n + left \<Longrightarrow> w (snd (backoff_from r w n left)) = Inl e
     \<Longrightarrow> \<not> r e"
proof (induction left arbitrary: n)
  case 0
  then show ?case by simp
next
  case (Suc left)
  show ?case
  proof (cases "w n")
    case (Inr v)
    with Suc.prems show ?thesis by simp
  next
    case (Inl x)
    show ?thesis
    proof (cases "r x")
      case False
      with Inl Suc.prems show ?thesis by simp
    next
      case True
      with Inl Suc.prems
      have "snd (backoff_from r w (Suc n) left) < Suc n + left"
        and "w (snd (backoff_from r w (Suc n) left)) = Inl e" by simp_all
      then show ?thesis by (rule Suc.IH)
    qed
  qed
qed

text \<open>
  Claim C5. Under the default policy a unit of work is retried at most 7 times, and
  what is surfaced is the outcome of its last attempt, unchanged. Every attempt but
  the last failed with an error the predicate accepts, and a call that ends before
  the ceiling ends on a success or on an error the predicate refuses: the predicate
  is consulted at every attempt. So a unit of work that always fails with errors
  the predicate accepts is retried exactly 7 times and the error of its eighth
  attempt is surfaced. An error with status 404 is not retried, at whichever attempt
  it occurs: the call ends there with that error. A timeout-class error
  (\<open>ECONNABORTED\<close>) is accepted by the predicate and is retried at whichever attempt
  below the ceiling it occurs. The predicate tests the timeout class first, as the
  claim gives it precedence ("always retried"), so the clause on 404 is about
  errors that are not of the timeout class; a timeout has no response and hence no
  status.
\<close>

theorem backoff_policy:
  "snd (backoffCall work) \<le> 7
   \<and> fst (backoffCall work) = work (snd (backoffCall work))
   \<and> (\<forall>m < snd (backoffCall work). \<exists>x. work m = Inl x \<and> retryIf x)
   \<and> (snd (backoffCall work) < 7 \<longrightarrow>
        (\<forall>x. work (snd (backoffCall work)) = Inl x \<longrightarrow> \<not> retryIf x))
   \<and> ((\<forall>m\<le>7. \<exists>x. work m = Inl x \<and> retryIf x) \<longrightarrow> backoffCall work = (work 7, 7))
   \<and> (n \<le> snd (backoffCall work) \<and> work n = Inl e \<and> err_status e = Some 404
        \<and> err_code e \<noteq> Some ''ECONNABORTED'' \<longrightarrow> backoffCall work = (Inl e, n))
   \<and> (err_code e' = Some ''ECONNABORTED'' \<longrightarrow> retryIf e')
   \<and> (n' \<le> snd (backoffCall work) \<and> n' < 7 \<and> work n' = Inl e'
        \<and> err_code e' = Some ''ECONNABORTED'' \<longrightarrow> n' < snd (backoffCall work))"
proof (intro conjI impI)
  show "snd (backoffCall work) \<le> 7"
    using backoff_from_count[of retryIf work 0 7] by (simp add: backoffCall_def failAfter_def)
  show l: "fst (backoffCall work) = work (snd (backoffCall work))"
    unfolding backoffCall_def by (rule backoff_from_last)
  show e: "\<forall>m < snd (backoffCall work). \<exists>x. work m = Inl x \<and> retryIf x"
    unfolding backoffCall_def using backoff_from_earlier[of 0 _ retryIf work failAfter] by simp
  show s: "\<forall>x. work (snd (backoffCall work)) = Inl x \<longrightarrow> \<not> retryIf x"
    if "snd (backoffCall work) < 7"
    using that backoff_from_stop[of retryIf work 0 failAfter]
    by (simp add: backoffCall_def failAfter_def)
  show "backoffCall work = (work 7, 7)" if "\<forall>m\<le>7. \<exists>x. work m = Inl x \<and> retryIf x"
  proof -
    have "snd (backoffCall work) = 0 + 7"
      unfolding backoffCall_def failAfter_def by (rule backoff_from_all_fail) (use that in auto)
    with l show ?thesis by (simp add: prod_eq_iff)
  qed
  show "backoffCall work = (Inl e, n)"
    if a: "n \<le> snd (backoffCall work) \<and> work n = Inl e \<and> err_status e = Some 404
        \<and> err_code e \<noteq> Some ''ECONNABORTED''"
  proof -
    from a have "\<not> retryIf e" by (simp add: retryIf_def)
    with e a have "\<not> n < snd (backoffCall work)" by auto
    with a have "snd (backoffCall work) = n" by simp
    with l a show ?thesis by (simp add: prod_eq_iff)
  qed
  show r: "retryIf e'" if "err_code e' = Some ''ECONNABORTED''"
    using that by (simp add: retryIf_def)
  show "n' < snd (backoffCall work)"
    if a: "n' \<le> snd (backoffCall work) \<and> n' < 7 \<and> work n' = Inl e'
        \<and> err_code e' = Some ''ECONNABORTED''"
  proof (rule ccontr)
    assume "\<not> n' < snd (backoffCall work)"
    with a have k: "snd (backoffCall work) = n'" by simp
    with a s have "\<not> retryIf e'" by simp
    with a show False by (simp add: retryIf_def)
  qed
qed

theorem backoff_policy_witness:
  "backoffCall (\<lambda>n. if n < 2 then Inl \<lparr> err_code = Some ''ECONNABORTED'', err_status = None \<rparr>
                    else Inl \<lparr> err_code = None, err_status = Some 404 \<rparr> :: js_error + unit)
     = (Inl \<lparr> err_code = None, err_status = Some 404 \<rparr>, 2)
   \<and> backoffCall (\<lambda>n. Inl \<lparr> err_code = Some ''ECONNABORTED'', err_status = None \<rparr> :: js_error + unit)
     = (Inl \<lparr> err_code = Some ''ECONNABORTED'', err_status = None \<rparr>, 7)
   \<and> retryIf \<lparr> err_code = Some ''ECONNABORTED'', err_status = None \<rparr>
   \<and> \<not> retryIf \<lparr> err_code = None, err_status = Some 404 \<rparr>"
  using
    backoff_policy [of "\<lambda>n. if n < 2 then Inl \<lparr> err_code = Some ''ECONNABORTED'', err_status = None \<rparr>
                    else Inl \<lparr> err_code = None, err_status = Some 404 \<rparr> :: js_error + unit"
      2 "\<lparr> err_code = None, err_status = Some 404 \<rparr>"
      "\<lparr> err_code = Some ''ECONNABORTED'', err_status = None \<rparr>" 1]
    backoff_policy [of "\<lambda>n. Inl \<lparr> err_code = Some ''ECONNABORTED'', err_status = None \<rparr> :: js_error + unit"
      0 "\<lparr> err_code = None, err_status = Some 404 \<rparr>"
      "\<lparr> err_code = Some ''ECONNABORTED'', err_status = None \<rparr>" 0]
  by (simp add: retryIf_def backoffCall_def failAfter_def numeral_eq_Suc)

section \<open>Properties of the content download\<close>

text \<open>
  Claim C3, as stated, fails: with the disk cache enabled, an empty cache, a free
  slot and a fetch that succeeds, a failing write of the cache file makes
  \<open>downloadContent\<close> reject with "Failed to cache download"; the fetched content is
  not returned.
\<close>

theorem downloadContent_cache_write_counterexample:
  "fst (downloadContent
         \<lparr> md5 = (\<lambda>u. u), path_join = (\<lambda>dir f. dir @ ''/'' @ f), readFile = (\<lambda>p. None),
           writeFile = (\<lambda>p data. Some \<lparr> err_code = Some ''ENOSPC'', err_status = None \<rparr>),
           stringify_headers = (\<lambda>h. h), fetch = (\<lambda>u. Inr (''body'', ''{}'')) \<rparr>
         ''http://a/b.png''
         (new_Downloader [] [] 1 True (Some ''cache'')))
   = Rejects (FailedToCacheDownload \<lparr> err_code = Some ''ENOSPC'', err_status = None \<rparr>)"
  by (simp add: downloadContent_def new_Downloader_def deserializeUrl_def
      readFromDownloadCache_def writeToDownloadCache_def js_truthy_string_def str_or_def
      claimRequest_def releaseRequest_def)

text \<open>
  Claim C3, amended. For every \<open>downloadContent\<close> call that fetches successfully
  from origin with the local disk cache enabled (a cache directory is set, the
  cache holds no copy, a slot of the throttle is free), a failure while persisting
  the result to the disk cache is logged as a warning and is fatal to the call: the
  promise rejects with "Failed to cache download" and the error of the write, and
  the fetched content is not returned. The throttle slot is released.
\<close>

theorem downloadContent_cache_write_failure:
  assumes "url0 \<noteq> []" and "useDownloadCache d" and "js_truthy_string (downloadCacheDirectory d)"
    and "fst (readFromDownloadCache env d (deserializeUrl d url0)) = None"
    and "activeRequests d < maxActiveRequests d"
    and "fetch env (deserializeUrl d url0) = Inr val"
    and "writeToDownloadCache env d (deserializeUrl d url0) val = Some e"
  shows "downloadContent env url0 d =
           (Rejects (FailedToCacheDownload e), d,
            [LogInfo ''Finding cached donwload'', LogInfo ''Caching response'',
             LogWarn ''Failed to cache download''])"
proof -
  have "snd (readFromDownloadCache env d (deserializeUrl d url0)) = [LogInfo ''Finding cached donwload'']"
    using assms(3) by (simp add: readFromDownloadCache_def Let_def)
  with assms show ?thesis
    by (simp add: downloadContent_def claimRequest_def releaseRequest_def)
qed

theorem downloadContent_cache_write_failure_witness:
  "downloadContent
     \<lparr> md5 = (\<lambda>u. u), path_join = (\<lambda>dir f. dir @ ''/'' @ f), readFile = (\<lambda>p. None),
       writeFile = (\<lambda>p data. Some \<lparr> err_code = Some ''ENOSPC'', err_status = None \<rparr>),
       stringify_headers = (\<lambda>h. h), fetch = (\<lambda>u. Inr (''body'', ''{}'')) \<rparr>
     ''http://a/b.png''
     (new_Downloader [] [] 1 True (Some ''cache''))
   = (Rejects (FailedToCacheDownload \<lparr> err_code = Some ''ENOSPC'', err_status = None \<rparr>),
      new_Downloader [] [] 1 True (Some ''cache''),
      [LogInfo ''Finding cached donwload'', LogInfo ''Caching response'',
       LogWarn ''Failed to cache download''])"
  by (rule downloadContent_cache_write_failure [where val = "(''body'', ''{}'')"])
     (simp_all add: new_Downloader_def deserializeUrl_def readFromDownloadCache_def
        writeToDownloadCache_def js_truthy_string_def str_or_def)

section \<open>Properties of the article fetch\<close>

declare getArticle.simps [simp del]

lemma underscored_idem: "underscored (underscored s) = underscored s"
  by (simp add: underscored_def)

lemma getArticle_forced:
  "getArticle w env a True d =
     (let articleId = underscored a;
          url = parsoidFallbackUrl d @ encodeURIComponent w articleId;
          reply = getJSON env True url;
          req = \<lparr> req_article = articleId, req_url = url, req_reply = reply \<rparr>
      in case reply of
           Inl err \<Rightarrow> (Inl (Thrown err), d, [req])
         | Inr ApiError \<Rightarrow> (Inl (ApiErrorWhenScraping url), d\<lparr>forceParsoidFallback := True\<rparr>, [req])
         | Inr (Document json) \<Rightarrow>
             (case renderArticle env json articleId True of
                Inl err \<Rightarrow> (Inl (Thrown err), d, [req])
              | Inr rendered \<Rightarrow> (Inr rendered, d, [req])))"
  by (subst getArticle.simps) (simp add: getArticleUrl_def Let_def split: sum.splits article_json.splits)

lemma getArticle_frame:
  "getArticle w env a force d = (res, d', reqs) \<Longrightarrow>
     parsoidFallbackUrl d' = parsoidFallbackUrl d \<and> (forceParsoidFallback d \<longrightarrow> forceParsoidFallback d')"
  apply (cases force)
   apply (auto simp: getArticle_forced Let_def split: sum.splits article_json.splits)[1]
  apply (subst (asm) getArticle.simps)
  apply (auto simp: getArticle_forced Let_def underscored_idem split: sum.splits article_json.splits if_splits)
  done

lemma getArticle_latched:
  "forceParsoidFallback d \<Longrightarrow> getArticle w env a force d = (res, d', reqs) \<Longrightarrow>
     (\<forall>r\<in>set reqs. to_fallback w d r)"
  apply (cases force)
   apply (auto simp: getArticle_forced Let_def to_fallback_def split: sum.splits article_json.splits)[1]
  apply (subst (asm) getArticle.simps)
  apply (auto simp: getArticle_forced Let_def underscored_idem to_fallback_def getArticleUrl_def split: sum.splits article_json.splits if_splits)
  done

lemma getArticle_api_error_last:
  "getArticle w env a force d = (res, d', xs @ r # ys) \<Longrightarrow> req_reply r = Inr ApiError \<Longrightarrow>
     ys = [] \<and> forceParsoidFallback d'"
  apply (cases force)
   apply (auto simp: getArticle_forced Let_def Cons_eq_append_conv split: sum.splits article_json.splits)[1]
  apply (subst (asm) getArticle.simps)
  apply (auto simp: getArticle_forced Let_def underscored_idem Cons_eq_append_conv split: sum.splits article_json.splits if_splits)
  done

lemma getArticles_frame:
  "getArticles w calls d = (d', reqs) \<Longrightarrow>
     parsoidFallbackUrl d' = parsoidFallbackUrl d \<and> (forceParsoidFallback d \<longrightarrow> forceParsoidFallback d')"
proof (induction calls arbitrary: d d' reqs)
  case Nil
  then show ?case by simp
next
  case (Cons c calls)
  obtain env a force where c: "c = (env, a, force)" by (cases c)
  obtain res d1 rc where g: "getArticle w env a force d = (res, d1, rc)" by (cases "getArticle w env a force d")
  obtain d2 later where l: "getArticles w calls d1 = (d2, later)" by (cases "getArticles w calls d1")
  from Cons.prems c g l have "d' = d2" by simp
  with getArticle_frame[OF g] Cons.IH[OF l] show ?case by simp
qed

lemma getArticles_latched:
  "forceParsoidFallback d \<Longrightarrow> getArticles w calls d = (d', reqs) \<Longrightarrow> \<forall>r\<in>set reqs. to_fallback w d r"
proof (induction calls arbitrary: d d' reqs)
  case Nil
  then show ?case by simp
next
  case (Cons c calls)
  obtain env a force where c: "c = (env, a, force)" by (cases c)
  obtain res d1 rc where g: "getArticle w env a force d = (res, d1, rc)" by (cases "getArticle w env a force d")
  obtain d2 later where l: "getArticles w calls d1 = (d2, later)" by (cases "getArticles w calls d1")
  from Cons.prems c g l have r: "reqs = rc @ later" by simp
  from getArticle_frame[OF g] Cons.prems(1) have f: "forceParsoidFallback d1" "parsoidFallbackUrl d1 = parsoidFallbackUrl d" by simp_all
  from Cons.IH[OF f(1) l] f(2) have "\<forall>r\<in>set later. to_fallback w d r" by (simp add: to_fallback_def)
  with getArticle_latched[OF Cons.prems(1) g] r show ?case by auto
qed

lemma getArticles_sticky:
  "getArticles w calls d = (d', xs @ r # ys) \<Longrightarrow> req_reply r = Inr ApiError \<Longrightarrow>
     (\<forall>q\<in>set ys. to_fallback w d q) \<and> forceParsoidFallback d'"
proof (induction calls arbitrary: d xs)
  case Nil
  then show ?case by simp
next
  case (Cons c calls)
  obtain env a force where c: "c = (env, a, force)" by (cases c)
  obtain res d1 rc where g: "getArticle w env a force d = (res, d1, rc)" by (cases "getArticle w env a force d")
  obtain d2 later where l: "getArticles w calls d1 = (d2, later)" by (cases "getArticles w calls d1")
  from Cons.prems(1) c g l have r: "rc @ later = xs @ r # ys" and d2: "d2 = d'" by simp_all
  note fr = getArticle_frame[OF g]
  from r consider
      (here) us where "rc = xs @ r # us" "ys = us @ later"
    | (later) us where "xs = rc @ us" "later = us @ r # ys"
    by (auto simp: append_eq_append_conv2 Cons_eq_append_conv append_eq_Cons_conv) 
  then show ?case
  proof cases
    case here
    from getArticle_api_error_last[OF g[unfolded here(1)] Cons.prems(2)]
    have us: "us = []" and f1: "forceParsoidFallback d1" by simp_all
    from getArticles_latched[OF f1 l] fr have "\<forall>q\<in>set later. to_fallback w d q"
      by (simp add: to_fallback_def)
    moreover from getArticles_frame[OF l] f1 d2 have "forceParsoidFallback d'" by simp
    ultimately show ?thesis using here us by simp
  next
    case later
    from Cons.IH[OF l[unfolded later(2) d2] Cons.prems(2)] fr show ?thesis
      by (simp add: to_fallback_def)
  qed
qed

text \<open>
  Claim C9. In a run of \<open>getArticle\<close> calls, once a request has been answered with
  a structured API error (\<open>type\<close> is \<open>api_error\<close>), every later request of the run
  goes to the fallback (Parsoid) URL, never to the mobile-rendering URL, and the
  latch \<open>forceParsoidFallback\<close> is set at the end of the run, however long it is.
\<close>

theorem sticky_fallback:
  assumes "getArticles w calls d = (d', reqs)" and "i < j" and "j < length reqs"
    and "req_reply (reqs ! i) = Inr ApiError"
  shows "req_url (reqs ! j) = parsoidFallbackUrl d @ encodeURIComponent w (req_article (reqs ! j))
     \<and> forceParsoidFallback d'"
proof -
  from assms(2,3) have i: "i < length reqs" by simp
  have dec: "reqs = take i reqs @ reqs ! i # drop (Suc i) reqs"
    using i by (simp add: id_take_nth_drop)
  have "drop (Suc i) reqs ! (j - Suc i) = reqs ! j"
    using assms(2,3) by simp
  moreover have "j - Suc i < length (drop (Suc i) reqs)"
    using assms(2,3) by simp
  ultimately have mem: "reqs ! j \<in> set (drop (Suc i) reqs)"
    by (metis nth_mem)
  have "getArticles w calls d = (d', take i reqs @ reqs ! i # drop (Suc i) reqs)"
    using assms(1) dec by simp
  from getArticles_sticky[OF this assms(4)] mem show ?thesis
    by (simp add: to_fallback_def)
qed

lemma getArticle_first:
  "getArticle w env a False d =
     (let articleId = underscored a;
          isMainPage = (articleId = mainPage w);
          url = getArticleUrl (encodeURIComponent w) d articleId isMainPage False;
          reply = getJSON env False url;
          req = \<lparr> req_article = articleId, req_url = url, req_reply = reply \<rparr>
      in case reply of
           Inl err \<Rightarrow>
             if is_404 (Thrown err) then (Inl (Thrown err), d, [req])
             else (case getArticle w env articleId True d of (res, d2, reqs) \<Rightarrow> (res, d2, req # reqs))
         | Inr ApiError \<Rightarrow> (Inl (ApiErrorWhenScraping url), d\<lparr>forceParsoidFallback := True\<rparr>, [req])
         | Inr (Document json) \<Rightarrow>
             (case renderArticle env json articleId False of
                Inl err \<Rightarrow>
                  if is_404 (Thrown err) then (Inl (Thrown err), d, [req])
                  else (case getArticle w env articleId True d of (res, d2, reqs) \<Rightarrow> (res, d2, req # reqs))
              | Inr rendered \<Rightarrow> (Inr rendered, d, [req])))"
  by (subst getArticle.simps) (simp add: Let_def split: sum.splits article_json.splits)

theorem sticky_fallback_witness:
  "req_reply (snd (getArticles \<lparr> encodeURIComponent = (\<lambda>s. s), mainPage = ''Main'' \<rparr>
       [(\<lparr> getJSON = (\<lambda>f u. Inr ApiError), renderArticle = (\<lambda>j a f. Inr j) \<rparr>, ''A'', False),
        (\<lparr> getJSON = (\<lambda>f u. Inr (Document ''html'')), renderArticle = (\<lambda>j a f. Inr j) \<rparr>, ''B'', False)]
       (new_Downloader ''b/'' ''a?'' 1 False None)) ! 0) = (Inr ApiError :: js_error + string article_json)
   \<and> req_url (snd (getArticles \<lparr> encodeURIComponent = (\<lambda>s. s), mainPage = ''Main'' \<rparr>
       [(\<lparr> getJSON = (\<lambda>f u. Inr ApiError), renderArticle = (\<lambda>j a f. Inr j) \<rparr>, ''A'', False),
        (\<lparr> getJSON = (\<lambda>f u. Inr (Document ''html'')), renderArticle = (\<lambda>j a f. Inr j) \<rparr>, ''B'', False)]
       (new_Downloader ''b/'' ''a?'' 1 False None)) ! 0)
     = mcsUrl (new_Downloader ''b/'' ''a?'' 1 False None) @ ''A''
   \<and> req_url (snd (getArticles \<lparr> encodeURIComponent = (\<lambda>s. s), mainPage = ''Main'' \<rparr>
       [(\<lparr> getJSON = (\<lambda>f u. Inr ApiError), renderArticle = (\<lambda>j a f. Inr j) \<rparr>, ''A'', False),
        (\<lparr> getJSON = (\<lambda>f u. Inr (Document ''html'')), renderArticle = (\<lambda>j a f. Inr j) \<rparr>, ''B'', False)]
       (new_Downloader ''b/'' ''a?'' 1 False None)) ! 1)
     = parsoidFallbackUrl (new_Downloader ''b/'' ''a?'' 1 False None) @ ''B''
   \<and> forceParsoidFallback (fst (getArticles \<lparr> encodeURIComponent = (\<lambda>s. s), mainPage = ''Main'' \<rparr>
       [(\<lparr> getJSON = (\<lambda>f u. Inr ApiError), renderArticle = (\<lambda>j a f. Inr j) \<rparr>, ''A'', False),
        (\<lparr> getJSON = (\<lambda>f u. Inr (Document ''html'')), renderArticle = (\<lambda>j a f. Inr (j :: string)) \<rparr>, ''B'', False)]
       (new_Downloader ''b/'' ''a?'' 1 False None)))"
proof -
  let ?w = "\<lparr> encodeURIComponent = (\<lambda>s. s), mainPage = ''Main'' \<rparr>"
  let ?calls = "[(\<lparr> getJSON = (\<lambda>f u. Inr ApiError), renderArticle = (\<lambda>j a f. Inr j) \<rparr>, ''A'', False),
        (\<lparr> getJSON = (\<lambda>f u. Inr (Document ''html'')), renderArticle = (\<lambda>j a f. Inr (j :: string)) \<rparr>, ''B'', False)]"
  let ?d = "new_Downloader ''b/'' ''a?'' 1 False None"
  let ?reqs = "[\<lparr> req_article = ''A'', req_url = mcsUrl ?d @ ''A'', req_reply = Inr ApiError \<rparr>,
     \<lparr> req_article = ''B'', req_url = parsoidFallbackUrl ?d @ ''B'', req_reply = Inr (Document ''html'') \<rparr>]"
  have run: "getArticles ?w ?calls ?d = (?d\<lparr>forceParsoidFallback := True\<rparr>, ?reqs)"
    by (simp add: getArticle_first getArticleUrl_def underscored_def new_Downloader_def Let_def)
  have "(0::nat) < 1" "1 < length ?reqs" "req_reply (?reqs ! 0) = Inr ApiError"
    by simp_all
  from sticky_fallback [OF run this] show ?thesis
    unfolding run by simp
qed

section \<open>Properties of the continuation pages\<close>

lemma obj_set_subset: "set (obj_set kvs k v) \<subseteq> insert (k, v) (set kvs)"
  by (induction kvs) (auto split: if_splits)

lemma map_fst_obj_set:
  "map fst (obj_set kvs k v) = (if k \<in> set (map fst kvs) then map fst kvs else map fst kvs @ [k])"
  by (induction kvs) (force+)

lemma obj_set_keys: "fst ` set (obj_set kvs k v) = insert k (fst ` set kvs)"
proof -
  have "set (map fst (obj_set kvs k v)) = insert k (set (map fst kvs))"
    unfolding map_fst_obj_set by auto
  then show ?thesis by simp
qed

lemma newDetail_fold_keys:
  "fst ` set (foldl (\<lambda>acc key.
              if \<not> js_truthy (map_of detail key) then acc
              else obj_set acc key (the (map_of detail key))) acc0 keys)
     \<subseteq> fst ` set acc0 \<union> set keys"
proof (induction keys arbitrary: acc0)
  case Nil
  then show ?case by simp
next
  case (Cons k keys)
  show ?case
    using Cons.IH[of "if \<not> js_truthy (map_of detail k) then acc0 else obj_set acc0 k (the (map_of detail k))"]
    by (auto simp: obj_set_keys split: if_splits)
qed

lemma newDetail_keys: "fst ` set (newDetail keys detail) \<subseteq> set keys"
  using newDetail_fold_keys[of detail "[]" keys] by (simp add: newDetail_def)

lemma strip_fold_values:
  "(aId, nd) \<in> set (foldl (\<lambda>acc (aId, detail). obj_set acc aId (newDetail ks detail)) acc0 page)
     \<Longrightarrow> (aId, nd) \<in> set acc0 \<or> (\<exists>detail. nd = newDetail ks detail)"
proof (induction page arbitrary: acc0)
  case Nil
  then show ?case by simp
next
  case (Cons p page)
  obtain a detail where p: "p = (a, detail)" by (cases p)
  from Cons.IH[of "obj_set acc0 a (newDetail ks detail)"] Cons.prems p
  have "(aId, nd) \<in> set (obj_set acc0 a (newDetail ks detail)) \<or> (\<exists>detail. nd = newDetail ks detail)"
    by simp
  with obj_set_subset[of acc0 a "newDetail ks detail"] show ?case by auto
qed

lemma continued_page_keeps_only_subCategories:
  "(aId, nd) \<in> set (fst (mergeContinuedPage dm None page cont)) \<Longrightarrow> (k, v) \<in> set nd
     \<Longrightarrow> k = ''subCategories''"
proof -
  assume a: "(aId, nd) \<in> set (fst (mergeContinuedPage dm None page cont))" and kv: "(k, v) \<in> set nd"
  from a have "(aId, nd) \<in> set (stripNonContinuedProps page [])"
    by (simp add: mergeContinuedPage_def)
  then obtain detail where "nd = newDetail (keysToKeep []) detail"
    using strip_fold_values[of aId nd "keysToKeep []" "[]" page]
    by (auto simp: stripNonContinuedProps_def)
  with newDetail_keys[of "keysToKeep []" detail] kv show ?thesis
    by (auto simp: keysToKeep_def)
qed

text \<open>
  Claim C1 (a page that is not the last keeps exactly the fields of the modules
  its continuation token names) does not hold. The page below has coordinates for
  article \<open>B\<close> and its token names \<open>coordinates\<close>; the merge step drops the
  coordinates with everything else, because both call sites leave out the token and
  the whitelist is then \<open>subCategories\<close> alone
  (\<open>continued_page_keeps_only_subCategories\<close>). Given the token,
  \<open>stripNonContinuedProps\<close> keeps the coordinates, as the claim says.
\<close>

theorem continued_page_drops_named_module:
  "mergeContinuedPage dm None
     [(''B'', [(''title'', JStr ''B''),
               (''coordinates'', JArr [JObj [(''lat'', JNum 1), (''lon'', JNum 2)]])])]
     [(''coordinates'', JObj [(''cocontinue'', JStr ''B|1'')])]
   = ([(''B'', [])], [(''coordinates'', JObj [(''cocontinue'', JStr ''B|1'')])])
  \<and> stripNonContinuedProps
     [(''B'', [(''title'', JStr ''B''),
               (''coordinates'', JArr [JObj [(''lat'', JNum 1), (''lon'', JNum 2)]])])]
     [(''coordinates'', JObj [(''cocontinue'', JStr ''B|1'')])]
   = [(''B'', [(''coordinates'', JArr [JObj [(''lat'', JNum 1), (''lon'', JNum 2)]])])]"
  by (simp add: mergeContinuedPage_def stripNonContinuedProps_def keysToKeep_def newDetail_def
      propsMap_def)

section \<open>Properties of the concurrent scan\<close>

lemma count_list_update:
  "i < length xs \<Longrightarrow>
     count_list (xs[i := y]) z + (if xs ! i = z then 1 else 0)
       = count_list xs z + (if y = z then 1 else 0)"
proof (induction xs arbitrary: i)
  case Nil
  then show ?case by simp
next
  case (Cons x xs)
  show ?case
  proof (cases i)
    case 0
    then show ?thesis by simp
  next
    case (Suc j)
    with Cons.prems have "j < length xs" by simp
    from Cons.IH[OF this] Suc show ?thesis by (auto split: if_splits)
  qed
qed

lemma list_all_count: "list_all (\<lambda>x. x = a) xs \<longleftrightarrow> count_list xs a = length xs"
proof (induction xs)
  case Nil
  then show ?case by simp
next
  case (Cons x xs)
  have "count_list xs a \<le> length xs" by (rule count_le_length)
  with Cons show ?case by auto
qed

lemma finished_count: "finished s \<longleftrightarrow> count_list (workers s) Returned = length (workers s)"
  unfolding finished_def by (rule list_all_count)

lemma count_Awaiting_update:
  assumes "i < length xs" "xs ! i = a" "a \<noteq> b"
  shows "count_list (xs[i := b]) b = Suc (count_list xs b)"
    and "Suc (count_list (xs[i := b]) a) = count_list xs a"
    and "c \<noteq> a \<Longrightarrow> c \<noteq> b \<Longrightarrow> count_list (xs[i := b]) c = count_list xs c"
  using count_list_update[OF assms(1), of b b] count_list_update[OF assms(1), of b a]
    count_list_update[OF assms(1), of b c] assms(2,3)
  by (auto split: if_splits)

lemma scan_inv_start: "scan_inv bs W (iterateItems_start 0 W)"
  by (auto simp: scan_inv_def iterateItems_start_def pass_scans_def)

lemma hscan_in_pass:
  assumes "k < pass_scans bs"
  shows "fst (hscan bs k) = (if Suc k < pass_scans bs then Suc k else 0)"
    and "concat (take k bs) @ snd (hscan bs k) = concat (take (Suc k) bs)"
    and "\<not> Suc k < pass_scans bs \<Longrightarrow> concat (take (Suc k) bs) = concat bs"
  using assms by (auto simp: hscan_def pass_scans_def take_Suc_conv_app_nth max_def split: if_splits)

lemma pending_tl:
  assumes "distinct (w # rest)" and "set (w # rest) = {v. v < W \<and> ws ! v = AwaitingScan}"
    and "length ws = W" and "x \<noteq> AwaitingScan"
  shows "set rest = {v. v < W \<and> ws[w := x] ! v = AwaitingScan}"
proof (rule set_eqI)
  fix v
  have w: "w \<notin> set rest" using assms(1) by simp
  have m: "v \<in> set (w # rest) \<longleftrightarrow> v < W \<and> ws ! v = AwaitingScan"
    by (simp only: assms(2) mem_Collect_eq)
  show "v \<in> set rest \<longleftrightarrow> v \<in> {v. v < W \<and> ws[w := x] ! v = AwaitingScan}"
  proof (cases "v = w")
    case True
    with w assms(3,4) show ?thesis by (cases "w < W") simp_all
  next
    case False
    with m have "v \<in> set rest \<longleftrightarrow> v < W \<and> ws ! v = AwaitingScan" by simp
    with False show ?thesis by simp
  qed
qed

lemma pending_snoc:
  assumes "distinct p" and "set p = {v. v < W \<and> ws ! v = AwaitingScan}"
    and "length ws = W" and "w < W" and "ws ! w \<noteq> AwaitingScan"
  shows "distinct (p @ [w])" and "set (p @ [w]) = {v. v < W \<and> ws[w := AwaitingScan] ! v = AwaitingScan}"
proof -
  have m: "\<And>v. v \<in> set p \<longleftrightarrow> v < W \<and> ws ! v = AwaitingScan"
    by (simp only: assms(2) mem_Collect_eq)
  from m[of w] assms(5) have w: "w \<notin> set p" by simp
  with assms(1) show "distinct (p @ [w])" by simp
  show "set (p @ [w]) = {v. v < W \<and> ws[w := AwaitingScan] ! v = AwaitingScan}"
  proof (rule set_eqI)
    fix v
    show "v \<in> set (p @ [w]) \<longleftrightarrow> v \<in> {v. v < W \<and> ws[w := AwaitingScan] ! v = AwaitingScan}"
    proof (cases "v = w")
      case True
      with assms(3,4) show ?thesis by simp
    next
      case False
      with m[of v] show ?thesis by simp
    qed
  qed
qed

lemma count_three:
  "count_list ws AwaitingScan + count_list ws InFunc + count_list ws Returned = length ws"
proof (induction ws)
  case Nil
  then show ?case by simp
next
  case (Cons x ws)
  then show ?case by (cases x) simp_all
qed

lemma count_pos: "i < length xs \<Longrightarrow> xs ! i = a \<Longrightarrow> 0 < count_list xs a"
  using count_list_0_iff nth_mem by fastforce

lemma scan_invI_looped:
  assumes "length (workers s) = W" and "distinct (pendingScan s)"
    and "set (pendingScan s) = {w. w < W \<and> workers s ! w = AwaitingScan}"
    and "hasLooped s" and "handled s = concat bs"
    and "scans s = pass_scans bs + count_list (workers s) Returned"
    and "1 \<le> lateCalls s + count_list (workers s) InFunc"
    and "lateCalls s + count_list (workers s) InFunc \<le> W"
  shows "scan_inv bs W s"
  unfolding scan_inv_def
  apply (intro conjI)
     apply (rule assms)
    apply (rule assms)
   apply (rule assms)
  apply (simp only: assms(4) if_True)
  apply (intro conjI)
     apply (rule assms)+
  done

lemma scan_invI_first:
  assumes "length (workers s) = W" and "distinct (pendingScan s)"
    and "set (pendingScan s) = {w. w < W \<and> workers s ! w = AwaitingScan}"
    and "\<not> hasLooped s" and "scans s < pass_scans bs" and "scanCursor s = scans s"
    and "handled s = concat (take (scans s) bs)"
    and "count_list (workers s) Returned = 0" and "lateCalls s = 0"
  shows "scan_inv bs W s"
  unfolding scan_inv_def
  apply (intro conjI)
     apply (rule assms)
    apply (rule assms)
   apply (rule assms)
  apply (simp only: assms(4) if_False)
  apply (intro conjI)
      apply (rule assms)+
  done

lemma scan_inv_pending:
  assumes "scan_inv bs W s"
  shows "length (workers s) = W" and "distinct (pendingScan s)"
    and "set (pendingScan s) = {w. w < W \<and> workers s ! w = AwaitingScan}"
  using assms unfolding scan_inv_def by blast+

lemma scan_inv_looped:
  assumes "scan_inv bs W s" and "hasLooped s"
  shows "handled s = concat bs" and "scans s = pass_scans bs + count_list (workers s) Returned"
    and "1 \<le> lateCalls s + count_list (workers s) InFunc"
    and "lateCalls s + count_list (workers s) InFunc \<le> W"
proof -
  from assms have "handled s = concat bs
          \<and> scans s = pass_scans bs + count_list (workers s) Returned
          \<and> 1 \<le> lateCalls s + count_list (workers s) InFunc
          \<and> lateCalls s + count_list (workers s) InFunc \<le> W"
    unfolding scan_inv_def by (simp only: if_True)
  then show "handled s = concat bs" and "scans s = pass_scans bs + count_list (workers s) Returned"
    and "1 \<le> lateCalls s + count_list (workers s) InFunc"
    and "lateCalls s + count_list (workers s) InFunc \<le> W" by blast+
qed

lemma scan_inv_first:
  assumes "scan_inv bs W s" and "\<not> hasLooped s"
  shows "scans s < pass_scans bs" and "scanCursor s = scans s"
    and "handled s = concat (take (scans s) bs)"
    and "count_list (workers s) Returned = 0" and "lateCalls s = 0"
proof -
  from assms have "scans s < pass_scans bs \<and> scanCursor s = scans s
          \<and> handled s = concat (take (scans s) bs)
          \<and> count_list (workers s) Returned = 0 \<and> lateCalls s = 0"
    unfolding scan_inv_def by (simp only: if_False)
  then show "scans s < pass_scans bs" and "scanCursor s = scans s"
    and "handled s = concat (take (scans s) bs)"
    and "count_list (workers s) Returned = 0" and "lateCalls s = 0" by blast+
qed

lemma pending_head:
  assumes "scan_inv bs W s" and "pendingScan s = w # rest"
  shows "w < length (workers s)" and "workers s ! w = AwaitingScan" and "distinct rest"
    and "x \<noteq> AwaitingScan \<Longrightarrow> set rest = {v. v < W \<and> (workers s)[w := x] ! v = AwaitingScan}"
proof -
  note p = scan_inv_pending[OF assms(1)]
  have "w \<in> set (pendingScan s)" by (simp add: assms(2))
  then have "w \<in> {w. w < W \<and> workers s ! w = AwaitingScan}" by (simp only: p(3))
  then show "w < length (workers s)" and "workers s ! w = AwaitingScan" by (simp_all add: p(1))
  from p(2) show "distinct rest" by (simp add: assms(2))
  have d: "distinct (w # rest)" using p(2) by (simp only: assms(2))
  have e: "set (w # rest) = {v. v < W \<and> workers s ! v = AwaitingScan}"
    using p(3) by (simp only: assms(2))
  show "set rest = {v. v < W \<and> (workers s)[w := x] ! v = AwaitingScan}" if "x \<noteq> AwaitingScan"
    by (rule pending_tl[OF d e p(1) that])
qed

lemma scan_reply_step:
  assumes inv: "scan_inv bs W s" and step: "scan_step bs s ScanReply = Some s'"
  shows "scan_inv bs W s' \<and> scan_measure bs W s' < scan_measure bs W s"
proof -
  from step obtain w rest where p: "pendingScan s = w # rest"
    by (cases "pendingScan s") auto
  note len = scan_inv_pending(1)[OF inv]
  note h = pending_head[OF inv p]
  have three: "count_list (workers s) AwaitingScan + count_list (workers s) InFunc
      + count_list (workers s) Returned = W"
    using count_three[of "workers s"] len by simp
  have pos: "0 < count_list (workers s) AwaitingScan"
    by (rule count_pos[OF h(1,2)])
  show ?thesis
  proof (cases "hasLooped s")
    case True
    with step p have s': "s' = s\<lparr>scanCursor := fst (hscan bs (scanCursor s)), pendingScan := rest,
        scans := scans s + 1, workers := (workers s)[w := Returned]\<rparr>"
      by (simp add: Let_def)
    have f: "workers s' = (workers s)[w := Returned]" "pendingScan s' = rest" "hasLooped s'"
      "handled s' = handled s" "scans s' = Suc (scans s)" "lateCalls s' = lateCalls s"
      using True by (simp_all add: s')
    note i = scan_inv_looped[OF inv True]
    note c = count_Awaiting_update[OF h(1,2), of Returned]
    have c1: "count_list (workers s') Returned = Suc (count_list (workers s) Returned)"
      unfolding f using c(1) by simp
    have c2: "count_list (workers s') InFunc = count_list (workers s) InFunc"
      unfolding f using c(3)[of InFunc] by simp
    have "scan_inv bs W s'"
    proof (rule scan_invI_looped)
      show "length (workers s') = W" using len by (simp add: f)
      show "distinct (pendingScan s')" using h(3) by (simp add: f)
      show "set (pendingScan s') = {w. w < W \<and> workers s' ! w = AwaitingScan}"
        unfolding f using h(4)[of Returned] by simp
      show "hasLooped s'" by (rule f)
      show "handled s' = concat bs" using i(1) by (simp add: f)
      show "scans s' = pass_scans bs + count_list (workers s') Returned"
        using i(2) by (simp add: f(5) c1)
      show "1 \<le> lateCalls s' + count_list (workers s') InFunc" using i(3) by (simp add: f(6) c2)
      show "lateCalls s' + count_list (workers s') InFunc \<le> W" using i(4) by (simp add: f(6) c2)
    qed
    moreover have "scan_measure bs W s' < scan_measure bs W s"
      unfolding scan_measure_def using i(2) three pos by (simp add: f(5) c2)
    ultimately show ?thesis ..
  next
    case False
    with step p have s': "s' = s\<lparr>scanCursor := fst (hscan bs (scanCursor s)), pendingScan := rest,
        scans := scans s + 1, hasLooped := (if fst (hscan bs (scanCursor s)) = 0 then True else False),
        handled := handled s @ snd (hscan bs (scanCursor s)), workers := (workers s)[w := InFunc]\<rparr>"
      by (cases "fst (hscan bs (scanCursor s)) = 0") (auto simp: Let_def)
    note i = scan_inv_first[OF inv False]
    note hs = hscan_in_pass[OF i(1)]
    have f: "workers s' = (workers s)[w := InFunc]" "pendingScan s' = rest"
      "hasLooped s' \<longleftrightarrow> \<not> Suc (scans s) < pass_scans bs"
      "handled s' = concat (take (Suc (scans s)) bs)" "scans s' = Suc (scans s)" "lateCalls s' = 0"
      "scanCursor s' = (if Suc (scans s) < pass_scans bs then Suc (scans s) else 0)"
      using i(2,3,5) hs(1,2) by (simp_all add: s')
    note c = count_Awaiting_update[OF h(1,2), of InFunc]
    have c1: "count_list (workers s') InFunc = Suc (count_list (workers s) InFunc)"
      unfolding f using c(1) by simp
    have c2: "count_list (workers s') Returned = 0"
      unfolding f using c(3)[of Returned] i(4) by simp
    have l: "length (workers s') = W" using len by (simp add: f)
    have d: "distinct (pendingScan s')" using h(3) by (simp add: f)
    have e: "set (pendingScan s') = {w. w < W \<and> workers s' ! w = AwaitingScan}"
      unfolding f using h(4)[of InFunc] by simp
    have "scan_inv bs W s'"
    proof (cases "Suc (scans s) < pass_scans bs")
      case True
      show ?thesis
      proof (rule scan_invI_first[OF l d e])
        show "\<not> hasLooped s'" using True by (simp add: f(3))
        show "scans s' < pass_scans bs" using True by (simp add: f(5))
        show "scanCursor s' = scans s'" using True by (simp add: f(5,7))
        show "handled s' = concat (take (scans s') bs)" by (simp add: f(4,5))
        show "count_list (workers s') Returned = 0" by (rule c2)
        show "lateCalls s' = 0" by (rule f)
      qed
    next
      case False
      show ?thesis
      proof (rule scan_invI_looped[OF l d e])
        show "hasLooped s'" using False by (simp add: f(3))
        show "handled s' = concat bs" using hs(3)[OF False] by (simp add: f(4))
        show "scans s' = pass_scans bs + count_list (workers s') Returned"
          using False i(1) by (simp add: f(5) c2)
        show "1 \<le> lateCalls s' + count_list (workers s') InFunc" by (simp add: f(6) c1)
        show "lateCalls s' + count_list (workers s') InFunc \<le> W"
          using three pos by (simp add: f(6) c1)
      qed
    qed
    moreover have "scan_measure bs W s' < scan_measure bs W s"
      unfolding scan_measure_def using i(1) by (simp add: f(5) c1)
    ultimately show ?thesis ..
  qed
qed

lemma scan_func_step:
  assumes inv: "scan_inv bs W s" and step: "scan_step bs s (FuncDone w) = Some s'"
  shows "scan_inv bs W s' \<and> scan_measure bs W s' < scan_measure bs W s"
proof -
  from step have w: "w < length (workers s)" "workers s ! w = InFunc"
    by (auto split: if_splits)
  with step have s': "s' = s\<lparr>pendingScan := pendingScan s @ [w],
      workers := (workers s)[w := AwaitingScan],
      lateCalls := lateCalls s + (if hasLooped s then 1 else 0)\<rparr>"
    by simp
  note p = scan_inv_pending[OF inv]
  have f: "workers s' = (workers s)[w := AwaitingScan]" "pendingScan s' = pendingScan s @ [w]"
    "hasLooped s' = hasLooped s" "handled s' = handled s" "scans s' = scans s"
    "scanCursor s' = scanCursor s" "lateCalls s' = lateCalls s + (if hasLooped s then 1 else 0)"
    by (simp_all add: s')
  note c = count_Awaiting_update[OF w, of AwaitingScan]
  have c1: "Suc (count_list (workers s') InFunc) = count_list (workers s) InFunc"
    unfolding f using c(2) by simp
  have c2: "count_list (workers s') Returned = count_list (workers s) Returned"
    unfolding f using c(3)[of Returned] by simp
  have wW: "w < W" using w(1) p(1) by simp
  have wn: "workers s ! w \<noteq> AwaitingScan" using w(2) by simp
  note sn = pending_snoc[OF p(2,3,1) wW wn]
  have l: "length (workers s') = W" using p(1) by (simp add: f)
  have d: "distinct (pendingScan s')" using sn(1) by (simp add: f)
  have e: "set (pendingScan s') = {w. w < W \<and> workers s' ! w = AwaitingScan}"
    unfolding f using sn(2) by simp
  have "scan_inv bs W s'"
  proof (cases "hasLooped s")
    case True
    note i = scan_inv_looped[OF inv True]
    show ?thesis
    proof (rule scan_invI_looped[OF l d e])
      show "hasLooped s'" using True by (simp add: f)
      show "handled s' = concat bs" using i(1) by (simp add: f)
      show "scans s' = pass_scans bs + count_list (workers s') Returned"
        using i(2) by (simp add: f(5) c2)
      show "1 \<le> lateCalls s' + count_list (workers s') InFunc"
        using True by (simp add: f(7))
      show "lateCalls s' + count_list (workers s') InFunc \<le> W"
        using True i(4) c1 by (simp add: f(7))
    qed
  next
    case False
    note i = scan_inv_first[OF inv False]
    show ?thesis
    proof (rule scan_invI_first[OF l d e])
      show "\<not> hasLooped s'" using False by (simp add: f)
      show "scans s' < pass_scans bs" using i(1) by (simp add: f)
      show "scanCursor s' = scans s'" using i(2) by (simp add: f)
      show "handled s' = concat (take (scans s') bs)" using i(3) by (simp add: f)
      show "count_list (workers s') Returned = 0" using i(4) by (simp add: c2)
      show "lateCalls s' = 0" using False i(5) by (simp add: f)
    qed
  qed
  moreover have "scan_measure bs W s' < scan_measure bs W s"
    unfolding scan_measure_def using c1 by (simp add: f(5))
  ultimately show ?thesis ..
qed

lemma scan_step_inv:
  assumes "scan_inv bs W s" and "scan_step bs s e = Some s'"
  shows "scan_inv bs W s' \<and> scan_measure bs W s' < scan_measure bs W s"
  using assms scan_reply_step scan_func_step by (cases e) blast+

lemma scan_run_inv:
  "scan_inv bs W s \<Longrightarrow> scan_run bs s evs = Some s' \<Longrightarrow>
     scan_inv bs W s' \<and> length evs + scan_measure bs W s' \<le> scan_measure bs W s"
proof (induction evs arbitrary: s)
  case Nil
  then show ?case by simp
next
  case (Cons e evs)
  from Cons.prems(2) obtain s1 where s1: "scan_step bs s e = Some s1" "scan_run bs s1 evs = Some s'"
    by (auto split: option.splits)
  from scan_step_inv[OF Cons.prems(1) s1(1)]
  have i: "scan_inv bs W s1" and m: "scan_measure bs W s1 < scan_measure bs W s" by simp_all
  from Cons.IH[OF i s1(2)] m show ?case by simp
qed

lemma scan_enabled:
  assumes inv: "scan_inv bs W s" and nf: "\<not> finished s"
  shows "\<exists>e s'. scan_step bs s e = Some s'"
proof (cases "pendingScan s")
  case (Cons w rest)
  then have "\<exists>s'. scan_step bs s ScanReply = Some s'" by (simp add: Let_def)
  then show ?thesis by blast
next
  case Nil
  note p = scan_inv_pending[OF inv]
  from nf obtain x where x: "x \<in> set (workers s)" "x \<noteq> Returned"
    by (auto simp: finished_def list_all_iff)
  then obtain w where w: "w < length (workers s)" "workers s ! w = x"
    by (auto simp: in_set_conv_nth)
  have "{w. w < W \<and> workers s ! w = AwaitingScan} = {}"
    using p(3) by (simp only: Nil list.set)
  then have "\<not> (w < W \<and> workers s ! w = AwaitingScan)" by blast
  with w p(1) have "x \<noteq> AwaitingScan" by auto
  with x(2) have "x = InFunc" by (cases x) auto
  with w have "\<exists>s'. scan_step bs s (FuncDone w) = Some s'" by simp
  then show ?thesis by blast
qed

lemma scan_completes:
  "scan_inv bs W s \<Longrightarrow> \<exists>evs s'. scan_run bs s evs = Some s' \<and> finished s'"
proof (induction "scan_measure bs W s" arbitrary: s rule: less_induct)
  case less
  show ?case
  proof (cases "finished s")
    case True
    then have "scan_run bs s [] = Some s \<and> finished s" by simp
    then show ?thesis by blast
  next
    case False
    from scan_enabled[OF less.prems False] obtain e s1 where e: "scan_step bs s e = Some s1"
      by blast
    from scan_step_inv[OF less.prems e]
    have i: "scan_inv bs W s1" and m: "scan_measure bs W s1 < scan_measure bs W s" by simp_all
    from less.hyps[OF m i] obtain evs s' where r: "scan_run bs s1 evs = Some s'" "finished s'"
      by blast
    with e have "scan_run bs s (e # evs) = Some s' \<and> finished s'" by simp
    then show ?thesis by blast
  qed
qed

lemma scan_finished:
  assumes inv: "scan_inv bs W s" and fin: "finished s" and W: "1 \<le> W"
  shows "hasLooped s \<and> scans s = pass_scans bs + W \<and> 1 \<le> lateCalls s \<and> lateCalls s \<le> W"
proof -
  note p = scan_inv_pending[OF inv]
  from fin have r: "count_list (workers s) Returned = W"
    by (simp add: finished_count p(1))
  have l: "hasLooped s"
  proof (rule ccontr)
    assume "\<not> hasLooped s"
    from scan_inv_first(4)[OF inv this] r W show False by simp
  qed
  note i = scan_inv_looped[OF inv l]
  from count_three[of "workers s"] r p(1) have "count_list (workers s) InFunc = 0" by simp
  with i r l show ?thesis by simp
qed

text \<open>
  A run on a new instance, where the cursor is \<open>0\<close>: \<open>W \<ge> 1\<close> workers, a table served
  in \<open>N\<close> scans, any interleaving of scan replies and completions of \<open>func\<close>. At every
  moment after a reply has carried cursor \<open>0\<close>, the items passed to \<open>func\<close> are exactly
  the items of the table, in scan order, and no batch is passed to \<open>func\<close> afterwards.
  When all workers have returned, \<open>N + W\<close> scans were made: the loop tests \<open>hasLooped\<close>
  after its \<open>await this.scan()\<close>, so after the wraparound each worker receives one
  more reply, which it discards; between 1 and \<open>W\<close> of these are calls of
  \<open>this.scan()\<close> made after the wraparound. From every state the run can be
  completed, and no run has more than \<open>2 * (N + W)\<close> events.
\<close>

lemma iterateItems_first_run:
  assumes "1 \<le> W" and "scan_run bs (iterateItems_start 0 W) evs = Some s"
  shows "(hasLooped s \<longrightarrow> handled s = concat bs)
     \<and> (finished s \<longrightarrow>
          hasLooped s \<and> scans s = pass_scans bs + W \<and> 1 \<le> lateCalls s \<and> lateCalls s \<le> W)
     \<and> (\<exists>evs' s'. scan_run bs s evs' = Some s' \<and> finished s')
     \<and> length evs \<le> 2 * (pass_scans bs + W)"
proof -
  from scan_run_inv[OF scan_inv_start assms(2)]
  have inv: "scan_inv bs W s"
    and m: "length evs + scan_measure bs W s \<le> scan_measure bs W (iterateItems_start 0 W)"
    by simp_all
  have "scan_measure bs W (iterateItems_start 0 W) = 2 * (pass_scans bs + W)"
    by (simp add: scan_measure_def iterateItems_start_def)
  with m have b: "length evs \<le> 2 * (pass_scans bs + W)" by simp
  from scan_inv_looped(1)[OF inv] scan_finished[OF inv _ assms(1)] scan_completes[OF inv] b
  show ?thesis by blast
qed

lemma iterateItems_first_run_example:
  "(1::nat) \<le> 2
   \<and> scan_run [[1::nat], [2]] (iterateItems_start 0 2)
        [ScanReply, ScanReply, FuncDone 1, ScanReply, FuncDone 0, ScanReply]
      = Some \<lparr> scanCursor = 0, hasLooped = True, pendingScan = [],
               workers = [Returned, Returned], handled = [1, 2], scans = 4, lateCalls = 2 \<rparr>
   \<and> finished \<lparr> scanCursor = 0, hasLooped = True, pendingScan = [],
               workers = [Returned, Returned], handled = [1::nat, 2], scans = 4, lateCalls = 2 \<rparr>
   \<and> [1::nat, 2] = concat [[1], [2]]
   \<and> (4::nat) = pass_scans [[1::nat], [2]] + 2
   \<and> (\<exists>evs' s'. scan_run [[1::nat], [2]]
          \<lparr> scanCursor = 0, hasLooped = True, pendingScan = [],
            workers = [Returned, Returned], handled = [1, 2], scans = 4, lateCalls = 2 \<rparr> evs'
          = Some s' \<and> finished s')
   \<and> length [ScanReply, ScanReply, FuncDone 1, ScanReply, FuncDone 0, ScanReply]
      \<le> 2 * (pass_scans [[1::nat], [2]] + 2)"
proof -
  have run: "scan_run [[1::nat], [2]] (iterateItems_start 0 2)
        [ScanReply, ScanReply, FuncDone 1, ScanReply, FuncDone 0, ScanReply]
      = Some \<lparr> scanCursor = 0, hasLooped = True, pendingScan = [],
               workers = [Returned, Returned], handled = [1, 2], scans = 4, lateCalls = 2 \<rparr>"
    by (simp add: iterateItems_start_def hscan_def Let_def numeral_2_eq_2)
  have W: "(1::nat) \<le> 2" by simp
  from iterateItems_first_run [OF W run] run show ?thesis
    by (simp add: finished_def pass_scans_def)
qed

lemma batch_from:
  assumes "c \<le> k" and "k < length bs"
  shows "set (bs ! k) \<subseteq> set (concat (drop c bs))"
proof -
  from assms have "bs ! k = drop c bs ! (k - c)" by simp
  moreover from assms have "k - c < length (drop c bs)" by simp
  ultimately have "bs ! k \<in> set (drop c bs)" by (metis nth_mem)
  then show ?thesis by auto
qed

lemma scan_step_from:
  assumes "scan_step bs s e = Some s'"
    and "set (handled s) \<subseteq> set (concat (drop c bs))"
    and "\<not> hasLooped s \<longrightarrow> c \<le> scanCursor s"
  shows "set (handled s') \<subseteq> set (concat (drop c bs)) \<and> (\<not> hasLooped s' \<longrightarrow> c \<le> scanCursor s')"
proof (cases e)
  case ScanReply
  with assms(1) obtain w rest where p: "pendingScan s = w # rest"
    by (cases "pendingScan s") auto
  show ?thesis
  proof (cases "hasLooped s")
    case True
    with assms ScanReply p show ?thesis by (auto simp: Let_def)
  next
    case False
    with assms(3) have c: "c \<le> scanCursor s" by simp
    show ?thesis
    proof (cases "scanCursor s < length bs")
      case True
      from batch_from[OF c True] have b: "set (bs ! scanCursor s) \<subseteq> set (concat (drop c bs))" .
      from assms(1) ScanReply p False True
      have h: "handled s' = handled s @ bs ! scanCursor s"
        and l: "\<not> hasLooped s' \<longrightarrow> c \<le> scanCursor s'"
        using c by (auto simp: Let_def hscan_def split: if_splits)
      from h b assms(2) have "set (handled s') \<subseteq> set (concat (drop c bs))"
        by (simp del: set_concat)
      with l show ?thesis by blast
    next
      case nl: False
      from assms(1) ScanReply p False nl
      have h: "handled s' = handled s" and l: "hasLooped s'"
        by (auto simp: Let_def hscan_def split: if_splits)
      with assms(2) show ?thesis by (simp del: set_concat)
    qed
  qed
next
  case (FuncDone w)
  with assms show ?thesis by (auto split: if_splits)
qed

lemma scan_run_from:
  "scan_run bs s evs = Some s' \<Longrightarrow> set (handled s) \<subseteq> set (concat (drop c bs))
     \<Longrightarrow> (\<not> hasLooped s \<longrightarrow> c \<le> scanCursor s)
     \<Longrightarrow> set (handled s') \<subseteq> set (concat (drop c bs))"
proof (induction evs arbitrary: s)
  case Nil
  then show ?case by simp
next
  case (Cons e evs)
  from Cons.prems(1) obtain s1 where s1: "scan_step bs s e = Some s1" "scan_run bs s1 evs = Some s'"
    by (auto split: option.splits)
  from scan_step_from[OF s1(1) Cons.prems(2,3)] Cons.IH[OF s1(2)] show ?case by blast
qed

lemma handled_from_cursor:
  "scan_run bs (iterateItems_start c W) evs = Some s \<Longrightarrow> set (handled s) \<subseteq> set (concat (drop c bs))"
  by (rule scan_run_from[where s = "iterateItems_start c W"]) (simp_all add: iterateItems_start_def)

lemma single_worker_pass:
  "k = length bs - c \<Longrightarrow> c < length bs \<Longrightarrow>
   scan_run bs \<lparr> scanCursor = c, hasLooped = False, pendingScan = [0], workers = [AwaitingScan],
                 handled = h, scans = n, lateCalls = 0 \<rparr> (single_worker_run k)
   = Some \<lparr> scanCursor = (if 1 < length bs then 1 else 0), hasLooped = True, pendingScan = [],
            workers = [Returned], handled = h @ concat (drop c bs),
            scans = n + (length bs - c) + 1, lateCalls = 1 \<rparr>"
proof (induction k arbitrary: c h n)
  case 0
  then show ?case by simp
next
  case (Suc k)
  have d: "drop c bs = bs ! c # drop (Suc c) bs"
    using Suc.prems(2) by (simp add: Cons_nth_drop_Suc)
  show ?case
  proof (cases "Suc c < length bs")
    case True
    with Suc.prems have k: "k = length bs - Suc c" by simp
    have "scan_run bs \<lparr> scanCursor = c, hasLooped = False, pendingScan = [0],
              workers = [AwaitingScan], handled = h, scans = n, lateCalls = 0 \<rparr>
            (single_worker_run (Suc k))
        = scan_run bs \<lparr> scanCursor = Suc c, hasLooped = False, pendingScan = [0],
              workers = [AwaitingScan], handled = h @ bs ! c, scans = Suc n, lateCalls = 0 \<rparr>
            (single_worker_run k)"
      using True by (simp add: single_worker_run_def hscan_def Let_def)
    also have "\<dots> = Some \<lparr> scanCursor = (if 1 < length bs then 1 else 0), hasLooped = True,
              pendingScan = [], workers = [Returned],
              handled = (h @ bs ! c) @ concat (drop (Suc c) bs),
              scans = Suc n + (length bs - Suc c) + 1, lateCalls = 1 \<rparr>"
      by (rule Suc.IH[OF k True])
    also have "(h @ bs ! c) @ concat (drop (Suc c) bs) = h @ concat (drop c bs)"
      by (simp add: d)
    also have "Suc n + (length bs - Suc c) + 1 = n + (length bs - c) + 1"
      using True by simp
    finally show ?thesis .
  next
    case False
    with Suc.prems have k: "k = 0" and c: "Suc c = length bs" by simp_all
    from c have "drop (Suc c) bs = []" by simp
    with d have d': "concat (drop c bs) = bs ! c" by simp
    have "scan_run bs \<lparr> scanCursor = c, hasLooped = False, pendingScan = [0],
              workers = [AwaitingScan], handled = h, scans = n, lateCalls = 0 \<rparr>
            (single_worker_run (Suc 0))
        = Some \<lparr> scanCursor = (if 1 < length bs then 1 else 0), hasLooped = True,
              pendingScan = [], workers = [Returned], handled = h @ bs ! c,
              scans = Suc (Suc n), lateCalls = 1 \<rparr>"
      using False Suc.prems(2) by (auto simp: single_worker_run_def hscan_def Let_def)
    with k c d' show ?thesis by auto
  qed
qed

text \<open>
  Claim C2 fails: a scan is called after the wraparound, it restarts the cursor,
  and the next run on the same instance loses keys. Take a table served in two or
  more batches and one worker on a new instance. The run passes every item to
  \<open>func\<close>, but after the reply with cursor \<open>0\<close> the worker calls \<open>this.scan()\<close> once more
  (\<open>N + 1\<close> scans); that request is sent with cursor \<open>0\<close> and starts the table again,
  and its reply, which the worker discards, leaves \<open>scanCursor\<close> at the second batch.
  Nothing resets \<open>scanCursor\<close>, so a later \<open>iterateItems\<close> on the instance, with any
  number of workers and any interleaving, passes to \<open>func\<close> only items of the batches
  after the first; with one worker it completes, having passed exactly those: the
  keys of the first batch are not visited.
\<close>

theorem iterateItems_second_run_loses_keys:
  assumes "2 \<le> length bs"
  shows "\<exists>s1. scan_run bs (iterateItems_start 0 1) (single_worker_run (length bs)) = Some s1
      \<and> finished s1 \<and> handled s1 = concat bs \<and> scans s1 = length bs + 1 \<and> lateCalls s1 = 1
      \<and> scanCursor s1 = 1
      \<and> (\<forall>W evs s2. scan_run bs (iterateItems_start (scanCursor s1) W) evs = Some s2
            \<longrightarrow> set (handled s2) \<subseteq> set (concat (tl bs)))
      \<and> (\<exists>s2. scan_run bs (iterateItems_start (scanCursor s1) 1)
                 (single_worker_run (length bs - 1)) = Some s2
            \<and> finished s2 \<and> handled s2 = concat (tl bs))"
proof -
  let ?s1 = "\<lparr> scanCursor = 1, hasLooped = True, pendingScan = [], workers = [Returned],
               handled = concat bs, scans = length bs + 1, lateCalls = 1 \<rparr>"
  let ?s2 = "\<lparr> scanCursor = 1, hasLooped = True, pendingScan = [], workers = [Returned],
               handled = concat (tl bs), scans = length bs, lateCalls = 1 \<rparr>"
  from assms have ne: "bs \<noteq> []" "0 < length bs" "1 < length bs" by auto
  from ne single_worker_pass[of "length bs" bs 0 "[]" 0]
  have r1: "scan_run bs (iterateItems_start 0 1) (single_worker_run (length bs)) = Some ?s1"
    by (simp add: iterateItems_start_def)
  from ne single_worker_pass[of "length bs - 1" bs 1 "[]" 0]
  have r2: "scan_run bs (iterateItems_start 1 1) (single_worker_run (length bs - 1)) = Some ?s2"
    by (simp add: iterateItems_start_def drop_Suc)
  have a: "\<forall>W evs s2. scan_run bs (iterateItems_start 1 W) evs = Some s2
            \<longrightarrow> set (handled s2) \<subseteq> set (concat (tl bs))"
    using handled_from_cursor[of bs 1] by (simp add: drop_Suc)
  from r1 r2 a show ?thesis by (simp add: finished_def)
qed

theorem iterateItems_second_run_loses_keys_witness:
  "(2::nat) \<le> length [[1::nat], [2]]
   \<and> scan_run [[1::nat], [2]] (iterateItems_start 0 1)
        [ScanReply, FuncDone 0, ScanReply, FuncDone 0, ScanReply]
      = Some \<lparr> scanCursor = 1, hasLooped = True, pendingScan = [], workers = [Returned],
               handled = [1, 2], scans = 3, lateCalls = 1 \<rparr>
   \<and> scan_run [[1::nat], [2]] (iterateItems_start 1 1) [ScanReply, FuncDone 0, ScanReply]
      = Some \<lparr> scanCursor = 1, hasLooped = True, pendingScan = [], workers = [Returned],
               handled = [2], scans = 2, lateCalls = 1 \<rparr>
   \<and> single_worker_run (length [[1::nat], [2]])
      = [ScanReply, FuncDone 0, ScanReply, FuncDone 0, ScanReply]
   \<and> 1 \<notin> set (concat (tl [[1::nat], [2]]))"
  using iterateItems_second_run_loses_keys [of "[[1::nat], [2]]"]
  by (simp add: iterateItems_start_def hscan_def Let_def single_worker_run_def)

section \<open>Properties of JSON text\<close>

lemma parse_escape:
  "(c, e) \<in> set escapes \<Longrightarrow> parse_chars acc (e @ r # cs) = parse_chars (acc @ [c]) (r # cs)"
  unfolding escapes_def
  by (auto simp: simple_escapes_def hex_val_def char_of_code_def)

lemma escapes_quote_backslash:
  "map_of escapes c = None \<Longrightarrow> c \<noteq> CHR 0x22 \<and> c \<noteq> CHR 0x5C"
  by (auto simp: escapes_def)

lemma parse_chars_quote:
  "parse_chars acc (concat (map escape_char s) @ CHR 0x22 # rest) = Ok (acc @ s) rest"
proof (induction s arbitrary: acc)
  case Nil
  then show ?case by (cases rest) simp_all
next
  case (Cons c s)
  obtain r cs where m: "concat (map escape_char s) @ CHR 0x22 # rest = r # cs"
    by (cases "concat (map escape_char s) @ CHR 0x22 # rest") auto
  let ?body = "concat (map escape_char s) @ CHR 0x22 # rest"
  have ih: "parse_chars (acc @ [c]) (r # cs) = Ok (acc @ c # s) rest"
    using Cons.IH[of "acc @ [c]"] m by simp
  have "parse_chars acc (escape_char c @ r # cs) = parse_chars (acc @ [c]) (r # cs)"
  proof (cases "map_of escapes c")
    case None
    then have "escape_char c = [c]" by (simp add: escape_char_def)
    moreover have "parse_chars acc (c # r # cs) = parse_chars (acc @ [c]) (r # cs)"
      using None escapes_quote_backslash[OF None] by simp
    ultimately show ?thesis by simp
  next
    case (Some e)
    then have "(c, e) \<in> set escapes" by (rule map_of_SomeD)
    from parse_escape[OF this, of acc r cs] Some show ?thesis by (simp add: escape_char_def)
  qed
  moreover have "concat (map escape_char (c # s)) @ CHR 0x22 # rest = escape_char c @ r # cs"
    using m by simp
  ultimately show ?case using ih by simp
qed

declare String_of_nat.simps [simp del]

lemma digit_char_facts:
  assumes "n < 10"
  shows "is_digit (digit_char n)" and "digit_val (digit_char n) = n"
    and "digit_char n = CHR ''0'' \<longleftrightarrow> n = 0"
proof -
  from assms have "n \<in> {0, 1, 2, 3, 4, 5, 6, 7, 8, 9}"
    by simp arith
  then show "is_digit (digit_char n)" and "digit_val (digit_char n) = n"
    and "digit_char n = CHR ''0'' \<longleftrightarrow> n = 0"
    by (auto simp: is_digit_def digit_val_def digit_char_def hex_val_def)
qed

lemma String_of_nat_nonempty: "String_of_nat n \<noteq> []"
  by (subst String_of_nat.simps) simp

lemma String_of_nat_digits: "c \<in> set (String_of_nat n) \<Longrightarrow> is_digit c"
proof (induction n rule: String_of_nat.induct)
  case (1 n)
  show ?case
  proof (cases "n < 10")
    case True
    with "1.prems" show ?thesis
      by (subst (asm) String_of_nat.simps) (simp add: digit_char_facts)
  next
    case False
    with "1.prems" "1.IH" show ?thesis
      by (subst (asm) String_of_nat.simps) (auto simp: digit_char_facts)
  qed
qed

lemma nat_of_digits_snoc: "nat_of_digits (ds @ [d]) = 10 * nat_of_digits ds + digit_val d"
  by (simp add: nat_of_digits_def)

lemma nat_of_digits_String: "nat_of_digits (String_of_nat n) = n"
proof (induction n rule: String_of_nat.induct)
  case (1 n)
  show ?case
  proof (cases "n < 10")
    case True
    then show ?thesis
      by (subst String_of_nat.simps) (simp add: nat_of_digits_def digit_char_facts)
  next
    case False
    with "1.IH" show ?thesis
      by (subst String_of_nat.simps) (simp add: nat_of_digits_snoc digit_char_facts)
  qed
qed

lemma String_of_nat_leading_zero: "hd (String_of_nat n) = CHR ''0'' \<Longrightarrow> n = 0"
proof (induction n rule: String_of_nat.induct)
  case (1 n)
  show ?case
  proof (cases "n < 10")
    case True
    with "1.prems" show ?thesis
      by (subst (asm) String_of_nat.simps) (simp add: digit_char_facts)
  next
    case False
    with "1.prems" have "hd (String_of_nat (n div 10)) = CHR ''0''"
      by (subst (asm) String_of_nat.simps) (simp add: String_of_nat_nonempty)
    with "1.IH" False show ?thesis by simp
  qed
qed

lemma String_of_nat_zero: "String_of_nat 0 = ''0''"
  by (subst String_of_nat.simps) (simp add: digit_char_def)

lemma delim_not_digit: "delim rest \<Longrightarrow> rest = [] \<or> (\<not> is_digit (hd rest) \<and> hd rest \<notin> set ''.eE'')"
  by (auto simp: delim_def is_digit_def)

lemma digits_then_rest:
  assumes "\<And>c. c \<in> set ds \<Longrightarrow> is_digit c" and "rest = [] \<or> \<not> is_digit (hd rest)"
  shows "takeWhile is_digit (ds @ rest) = ds" and "dropWhile is_digit (ds @ rest) = rest"
proof -
  have t: "takeWhile is_digit rest = []" using assms(2) by (cases rest) auto
  have d: "dropWhile is_digit rest = rest" using assms(2) by (cases rest) auto
  show "takeWhile is_digit (ds @ rest) = ds"
    using assms(1) t by (simp add: takeWhile_append2)
  show "dropWhile is_digit (ds @ rest) = rest"
    using assms(1) d by (simp add: dropWhile_append2)
qed

lemma parse_number_digits:
  assumes "delim rest"
  shows "parse_number (String_of_nat n @ rest) = Ok (JNum (int n)) rest"
    and "parse_number (CHR ''-'' # String_of_nat n @ rest) = Ok (JNum (- int n)) rest"
proof -
  let ?ds = "String_of_nat n"
  note dr = delim_not_digit[OF assms]
  from dr have r: "rest = [] \<or> \<not> is_digit (hd rest)" by blast
  note td = digits_then_rest[of ?ds rest, OF String_of_nat_digits r]
  have ne: "?ds \<noteq> []" by (rule String_of_nat_nonempty)
  have hd_digit: "is_digit (hd ?ds)" using ne String_of_nat_digits[of "hd ?ds" n] by simp
  then have nominus: "\<not> startsWith (?ds @ rest) ''-''"
    using ne by (cases ?ds) (auto simp: is_digit_def)
  have lz: "\<not> (hd ?ds = CHR ''0'' \<and> 1 < length ?ds)"
    using String_of_nat_leading_zero[of n] String_of_nat_zero by auto
  have e: "\<not> (rest \<noteq> [] \<and> hd rest \<in> set ''.eE'')" using dr by blast
  show "parse_number (?ds @ rest) = Ok (JNum (int n)) rest"
    unfolding parse_number_def Let_def using nominus td ne lz e
    by (simp add: nat_of_digits_String)
  show "parse_number (CHR ''-'' # ?ds @ rest) = Ok (JNum (- int n)) rest"
    unfolding parse_number_def Let_def using td ne lz e
    by (simp add: nat_of_digits_String)
qed

lemma parse_number_stringify:
  "delim rest \<Longrightarrow> parse_number (JSON_stringify (JNum n) @ rest) = Ok (JNum n) rest"
  using parse_number_digits[of rest "nat n"] parse_number_digits[of rest "nat (- n)"]
  by (cases "n < 0") simp_all

lemma String_of_nat_hd: "hd (String_of_nat n) \<in> set ''0123456789''"
  using String_of_nat_digits[of "hd (String_of_nat n)" n] String_of_nat_nonempty[of n]
  by (simp add: is_digit_def)

lemma starts_value_stringify: "starts_value (JSON_stringify v @ rest)"
proof (cases v)
  case (JNum n)
  then show ?thesis
    using String_of_nat_hd[of "nat n"] String_of_nat_nonempty[of "nat n"]
    by (auto simp: starts_value_def)
qed (auto simp: starts_value_def quote_def)

lemma starts_value_elems: "vs \<noteq> [] \<Longrightarrow> starts_value (stringify_elems vs @ rest)"
proof (cases vs)
  case Nil
  assume "vs \<noteq> []" with Nil show ?thesis by simp
next
  case (Cons v ws)
  show ?thesis
  proof (cases ws)
    case Nil
    with Cons starts_value_stringify[of v rest] show ?thesis by simp
  next
    case (Cons w xs)
    with \<open>vs = v # ws\<close> starts_value_stringify[of v "'','' @ stringify_elems (w # xs) @ rest"]
    show ?thesis by simp
  qed
qed

lemma starts_value_skip:
  assumes "starts_value s"
  shows "skip_ws s = s" and "\<not> startsWith (skip_ws s) '']''" and "\<not> startsWith (skip_ws s) ''}''"
proof -
  from assms obtain c cs where s: "s = c # cs" "c \<in> set (CHR 0x22 # ''ntf[{-0123456789'')"
    by (cases s) (auto simp: starts_value_def)
  then show "skip_ws s = s" by (auto simp: skip_ws_def)
  with s show "\<not> startsWith (skip_ws s) '']''" and "\<not> startsWith (skip_ws s) ''}''" by auto
qed

lemma skip_ws_punct [simp]:
  "skip_ws (CHR '','' # s) = CHR '','' # s" "skip_ws (CHR '']'' # s) = CHR '']'' # s"
  "skip_ws (CHR ''}'' # s) = CHR ''}'' # s" "skip_ws (CHR '':'' # s) = CHR '':'' # s"
  "skip_ws (CHR 0x22 # s) = CHR 0x22 # s" "skip_ws [] = []"
  by (simp_all add: skip_ws_def)

lemma delim_punct [simp]: "delim (CHR '','' # s)" "delim (CHR '']'' # s)" "delim (CHR ''}'' # s)" "delim []"
  by (simp_all add: delim_def)

lemma parse_value_number:
  assumes "c = CHR ''-'' \<or> is_digit c"
  shows "parse_value (Suc n) (c # cs) = parse_number (c # cs)"
proof -
  from assms have ne: "c \<noteq> CHR ''n''" "c \<noteq> CHR ''t''" "c \<noteq> CHR ''f''" "c \<noteq> CHR 0x22"
      "c \<noteq> CHR ''[''" "c \<noteq> CHR ''{''"
    and ws: "c \<notin> set [CHR '' '', CHR 0x09, CHR 0x0A, CHR 0x0D]"
    by (auto simp: is_digit_def)
  have "skip_ws (c # cs) = c # cs" using ws by (simp add: skip_ws_def)
  then show ?thesis using ne assms by simp
qed

lemma parse_value_atoms:
  "parse_value (Suc n) (''null'' @ rest) = Ok JNull rest"
  "parse_value (Suc n) (''true'' @ rest) = Ok (JBool True) rest"
  "parse_value (Suc n) (''false'' @ rest) = Ok (JBool False) rest"
  by (simp_all add: skip_ws_def parse_literal_def)

lemma parse_value_string:
  "parse_value (Suc n) (quote s @ rest) = Ok (JStr s) rest"
  using parse_chars_quote[of "[]" s rest] by (simp add: quote_def)

lemma parse_value_array:
  "parse_value (Suc n) (CHR ''['' # cs) =
     (if startsWith (skip_ws cs) '']'' then Ok (JArr []) (tl (skip_ws cs)) else parse_elems n [] cs)"
  by (simp add: skip_ws_def)

lemma parse_value_object:
  "parse_value (Suc n) (CHR ''{'' # cs) =
     (if startsWith (skip_ws cs) ''}'' then Ok (JObj []) (tl (skip_ws cs)) else parse_members n [] cs)"
  by (simp add: skip_ws_def)

lemma obj_set_fresh: "k \<notin> set (map fst acc) \<Longrightarrow> obj_set acc k v = acc @ [(k, v)]"
  by (induction acc) auto

lemma parse_elems_step:
  assumes "parse_value n s = Ok v (c # rest')"
  shows "c = CHR '','' \<Longrightarrow> parse_elems (Suc n) acc s = parse_elems n (acc @ [v]) rest'"
    and "c = CHR '']'' \<Longrightarrow> parse_elems (Suc n) acc s = Ok (JArr (acc @ [v])) rest'"
  using assms by simp_all

lemma parse_members_step:
  assumes "parse_value n s3 = Ok v (c # rest')"
  shows "c = CHR '','' \<Longrightarrow>
      parse_members (Suc n) acc (quote k @ CHR '':'' # s3) = parse_members n (obj_set acc k v) rest'"
    and "c = CHR ''}'' \<Longrightarrow>
      parse_members (Suc n) acc (quote k @ CHR '':'' # s3) = Ok (JObj (obj_set acc k v)) rest'"
proof -
  have q: "quote k @ CHR '':'' # s3 = CHR 0x22 # (concat (map escape_char k) @ CHR 0x22 # CHR '':'' # s3)"
    by (simp add: quote_def)
  have p: "parse_chars [] (concat (map escape_char k) @ CHR 0x22 # CHR '':'' # s3) = Ok k (CHR '':'' # s3)"
    using parse_chars_quote[of "[]" k "CHR '':'' # s3"] by simp
  show "c = CHR '','' \<Longrightarrow>
      parse_members (Suc n) acc (quote k @ CHR '':'' # s3) = parse_members n (obj_set acc k v) rest'"
    unfolding q using p assms by simp
  show "c = CHR ''}'' \<Longrightarrow>
      parse_members (Suc n) acc (quote k @ CHR '':'' # s3) = Ok (JObj (obj_set acc k v)) rest'"
    unfolding q using p assms by simp
qed

declare parse_value.simps [simp del] parse_elems.simps [simp del] parse_members.simps [simp del]

lemma parse_stringify:
  "need v \<le> n \<Longrightarrow> wf_json v \<Longrightarrow> delim rest \<Longrightarrow>
     parse_value n (JSON_stringify v @ rest) = Ok v rest"
  "vs \<noteq> [] \<Longrightarrow> need_elems vs \<le> n \<Longrightarrow> wf_elems vs \<Longrightarrow>
     parse_elems n acc (stringify_elems vs @ CHR '']'' # rest) = Ok (JArr (acc @ vs)) rest"
  "kvs \<noteq> [] \<Longrightarrow> need_members kvs \<le> n \<Longrightarrow> wf_members kvs \<Longrightarrow>
     distinct (map fst (acc' @ kvs)) \<Longrightarrow>
     parse_members n acc' (stringify_members kvs @ CHR ''}'' # rest) = Ok (JObj (acc' @ kvs)) rest"
proof (induction v and vs and kvs arbitrary: n rest and n acc rest and n acc' rest
    rule: JSON_stringify_stringify_elems_stringify_members.induct)
  case 1
  then obtain m where "n = Suc m" by (cases n) auto
  then show ?case using parse_value_atoms(1)[of m rest] by simp
next
  case (2 b)
  then obtain m where "n = Suc m" by (cases n) auto
  then show ?case using parse_value_atoms(2,3)[of m rest] by simp
next
  case (3 i)
  then obtain m where n: "n = Suc m" by (cases n) auto
  have "\<exists>c cs. JSON_stringify (JNum i) @ rest = c # cs \<and> (c = CHR ''-'' \<or> is_digit c)"
  proof (cases "i < 0")
    case True
    then show ?thesis by simp
  next
    case False
    obtain a as where a: "String_of_nat (nat i) = a # as"
      using String_of_nat_nonempty[of "nat i"] by (cases "String_of_nat (nat i)") auto
    with String_of_nat_digits[of a "nat i"] have "is_digit a" by simp
    with a False show ?thesis by simp
  qed
  then obtain c cs where s: "JSON_stringify (JNum i) @ rest = c # cs"
    and c: "c = CHR ''-'' \<or> is_digit c" by blast
  from parse_value_number[OF c, of m cs] parse_number_stringify[OF "3.prems"(3), of i] s n
  show ?case by simp
next
  case (4 s)
  then obtain m where "n = Suc m" by (cases n) auto
  then show ?case using parse_value_string[of m s rest] by simp
next
  case (5 vs)
  then obtain m where n: "n = Suc m" and m: "need_elems vs \<le> m" by (cases n) auto
  show ?case
  proof (cases "vs = []")
    case True
    then show ?thesis by (simp add: n parse_value_array)
  next
    case False
    note sk = starts_value_skip[OF starts_value_elems[OF False, of "CHR '']'' # rest"]]
    from "5.IH"[OF False m, of "[]" rest] "5.prems"(2) sk(2)
    show ?thesis by (simp add: n parse_value_array)
  qed
next
  case (6 kvs)
  then obtain m where n: "n = Suc m" and m: "need_members kvs \<le> m" by (cases n) auto
  show ?case
  proof (cases kvs)
    case Nil
    then show ?thesis by (simp add: n parse_value_object)
  next
    case (Cons kv kvs')
    then have ne: "kvs \<noteq> []" by simp
    obtain k v where kv: "kv = (k, v)" by (cases kv)
    have "\<exists>t. stringify_members kvs @ CHR ''}'' # rest = CHR 0x22 # t"
      using Cons kv by (cases kvs') (simp_all add: quote_def)
    then obtain t where e: "stringify_members kvs @ CHR ''}'' # rest = CHR 0x22 # t" by blast
    have "\<not> startsWith (skip_ws (stringify_members kvs @ CHR ''}'' # rest)) ''}''"
      unfolding e by simp
    with "6.IH"[OF ne m, of "[]" rest] "6.prems"(2)
    show ?thesis by (simp add: n parse_value_object)
  qed
next
  case 7
  then show ?case by simp
next
  case (8 v)
  then obtain m where n: "n = Suc m" and m: "need v \<le> m" by (cases n) auto
  from "8.IH"[OF m, of "CHR '']'' # rest"] "8.prems"(3)
  have "parse_value m (JSON_stringify v @ CHR '']'' # rest) = Ok v (CHR '']'' # rest)" by simp
  from parse_elems_step(2)[OF this, of acc] show ?case by (simp add: n)
next
  case (9 v w vs)
  then obtain m where n: "n = Suc m" and m: "need v \<le> m" "need_elems (w # vs) \<le> m"
    by (cases n) auto
  let ?tail = "stringify_elems (w # vs) @ CHR '']'' # rest"
  from "9.IH"(1)[OF m(1), of "CHR '','' # ?tail"] "9.prems"(3)
  have "parse_value m (JSON_stringify v @ CHR '','' # ?tail) = Ok v (CHR '','' # ?tail)" by simp
  from parse_elems_step(1)[OF this, of acc]
  have "parse_elems n acc (JSON_stringify v @ CHR '','' # ?tail) = parse_elems m (acc @ [v]) ?tail"
    by (simp add: n)
  also have "\<dots> = Ok (JArr ((acc @ [v]) @ w # vs)) rest"
    using "9.IH"(2)[OF _ m(2), of "acc @ [v]" rest] "9.prems"(3) by simp
  finally show ?case by simp
next
  case 10
  then show ?case by simp
next
  case (11 k v)
  then obtain m where n: "n = Suc m" and m: "need v \<le> m" by (cases n) auto
  from "11.prems"(4) have fresh: "k \<notin> set (map fst acc')" by simp
  from "11.IH"[OF m, of "CHR ''}'' # rest"] "11.prems"(3)
  have "parse_value m (JSON_stringify v @ CHR ''}'' # rest) = Ok v (CHR ''}'' # rest)" by simp
  from parse_members_step(2)[OF this, of acc' k] obj_set_fresh[OF fresh, of v]
  show ?case by (simp add: n)
next
  case (12 k v kv kvs)
  then obtain m where n: "n = Suc m" and m: "need v \<le> m" "need_members (kv # kvs) \<le> m"
    by (cases n) auto
  from "12.prems"(4) have fresh: "k \<notin> set (map fst acc')"
    and d: "distinct (map fst ((acc' @ [(k, v)]) @ kv # kvs))" by simp_all
  let ?tail = "stringify_members (kv # kvs) @ CHR ''}'' # rest"
  from "12.IH"(1)[OF m(1), of "CHR '','' # ?tail"] "12.prems"(3)
  have "parse_value m (JSON_stringify v @ CHR '','' # ?tail) = Ok v (CHR '','' # ?tail)" by simp
  from parse_members_step(1)[OF this, of acc' k] obj_set_fresh[OF fresh, of v]
  have "parse_members n acc' (quote k @ CHR '':'' # JSON_stringify v @ CHR '','' # ?tail)
      = parse_members m (acc' @ [(k, v)]) ?tail"
    by (simp add: n)
  also have "\<dots> = Ok (JObj ((acc' @ [(k, v)]) @ kv # kvs)) rest"
    using "12.IH"(2)[OF _ m(2) _ d, of rest] "12.prems"(3) by simp
  finally show ?case by simp
qed

lemma need_le_length:
  "need v \<le> length (JSON_stringify v)"
  "need_elems vs \<le> Suc (length (stringify_elems vs))"
  "need_members kvs \<le> Suc (length (stringify_members kvs))"
proof (induction v and vs and kvs rule: JSON_stringify_stringify_elems_stringify_members.induct)
  case (3 n)
  then show ?case
    using String_of_nat_nonempty[of "nat n"] String_of_nat_nonempty[of "nat (- n)"]
    by (cases "String_of_nat (nat n)") auto
next
  case (4 s)
  then show ?case by (simp add: quote_def)
qed (auto simp: quote_def)

lemma JSON_roundtrip: "wf_json v \<Longrightarrow> JSON_parse (JSON_stringify v) = Parsed v"
proof -
  assume wf: "wf_json v"
  have "need v \<le> Suc (length (JSON_stringify v))" using need_le_length(1)[of v] by simp
  from parse_stringify(1)[OF this wf, of "[]"] show ?thesis
    by (simp add: JSON_parse_def)
qed

section \<open>Properties of get and set\<close>

lemma JSON_parse_null: "JSON_parse ''null'' = Parsed JNull"
  by (simp add: JSON_parse_def parse_value_atoms(1)[of _ "[]", simplified])

text \<open>
  Claim C4, as stated, fails for strings. The string \<open>1\<close> is stored as it is and
  read back as the number 1; the string \<open>abc\<close> is stored as it is and \<open>JSON.parse\<close>
  throws on it, so \<open>get\<close> does not resolve at all.
\<close>

theorem set_then_get_counterexample:
  "RedisKvs_get ''db''
     (snd (RedisKvs_set ''db'' \<lparr> failing = None, hashes = (\<lambda>d f. None) \<rparr> ''k'' (JStr ''1''))) ''k''
   = ResolvedWith (JNum 1)
   \<and> RedisKvs_get ''db''
     (snd (RedisKvs_set ''db'' \<lparr> failing = None, hashes = (\<lambda>d f. None) \<rparr> ''k'' (JStr ''abc''))) ''k''
   = CallbackThrows"
  by code_simp

text \<open>
  Claim C4, amended. For every key \<open>k\<close> and every value \<open>v\<close> that is not a string
  (null, a boolean, an integer, an array or an object of such values and strings,
  objects with distinct keys), after \<open>set(k, v)\<close> succeeds \<open>get(k)\<close> resolves with \<open>v\<close>:
  the value is serialized on write and parsed back on read. A string \<open>s\<close> is stored
  unencoded, and \<open>get(k)\<close> then does what parsing \<open>s\<close> itself as JSON text does.
\<close>

theorem set_then_get:
  assumes "failing r = None"
  shows "(\<not> typeof_string v \<and> wf_json v \<longrightarrow>
           RedisKvs_get db (snd (RedisKvs_set db r k v)) k = ResolvedWith v)
     \<and> RedisKvs_get db (snd (RedisKvs_set db r k (JStr s))) k = read_back s"
proof (intro conjI impI)
  assume a: "\<not> typeof_string v \<and> wf_json v"
  then have "(case v of JStr s \<Rightarrow> s | _ \<Rightarrow> JSON_stringify v) = JSON_stringify v"
    by (cases v) auto
  with a assms JSON_roundtrip[of v]
  show "RedisKvs_get db (snd (RedisKvs_set db r k v)) k = ResolvedWith v"
    by (simp add: RedisKvs_get_def RedisKvs_set_def Let_def str_or_def read_back_def)
next
  show "RedisKvs_get db (snd (RedisKvs_set db r k (JStr s))) k = read_back s"
    using assms by (simp add: RedisKvs_get_def RedisKvs_set_def Let_def str_or_def)
qed

theorem set_then_get_witness:
  "RedisKvs_get ''db''
     (snd (RedisKvs_set ''db'' \<lparr> failing = None, hashes = (\<lambda>d f. None) \<rparr> ''k''
        (JObj [(''a'', JArr [JNum (- 12), JNull]), (''b'', JStr ''x'')]))) ''k''
   = ResolvedWith (JObj [(''a'', JArr [JNum (- 12), JNull]), (''b'', JStr ''x'')])
   \<and> RedisKvs_get ''db''
     (snd (RedisKvs_set ''db'' \<lparr> failing = None, hashes = (\<lambda>d f. None) \<rparr> ''k'' (JStr ''1''))) ''k''
   = read_back ''1''"
  using set_then_get [of "\<lparr> failing = None, hashes = (\<lambda>d f. None) \<rparr>"
      "JObj [(''a'', JArr [JNum (- 12), JNull]), (''b'', JStr ''x'')]" "''db''" "''k''" "''1''"]
  by simp

lemma read_back_not_rejected: "read_back text \<noteq> RejectedWith err"
  by (simp add: read_back_def split: parsed.splits)

text \<open>
  Claim C10. For every key with no stored value, \<open>get\<close> resolves with \<open>null\<close>: the
  \<open>null\<close> reply of the store is parsed to \<open>null\<close> (a value of JSON, not \<open>undefined\<close>).
  \<open>get\<close> rejects exactly when the store reports an error, and then with that error.
  So a missing key never rejects, a store error never resolves, and the caller can
  tell the two apart.
\<close>

theorem get_missing_key:
  "(failing r = None \<and> hashes r db k = None \<longrightarrow> RedisKvs_get db r k = ResolvedWith JNull)
   \<and> (RedisKvs_get db r k = RejectedWith err) = (failing r = Some err)"
  using JSON_parse_null read_back_not_rejected
  by (auto simp: RedisKvs_get_def str_or_def read_back_def split: option.splits)

theorem get_missing_key_witness:
  "RedisKvs_get ''db'' \<lparr> failing = None, hashes = (\<lambda>d f. None) \<rparr> ''k'' = ResolvedWith JNull
   \<and> RedisKvs_get ''db''
       \<lparr> failing = Some \<lparr> err_code = Some ''ECONNREFUSED'', err_status = None \<rparr>,
         hashes = (\<lambda>d f. None) \<rparr> ''k''
     = RejectedWith \<lparr> err_code = Some ''ECONNREFUSED'', err_status = None \<rparr>"
  using get_missing_key [of "\<lparr> failing = None, hashes = (\<lambda>d f. None) \<rparr>" "''db''" "''k''"]
    get_missing_key [of "\<lparr> failing = Some \<lparr> err_code = Some ''ECONNREFUSED'', err_status = None \<rparr>,
         hashes = (\<lambda>d f. None) \<rparr>" "''db''" "''k''" "\<lparr> err_code = Some ''ECONNREFUSED'', err_status = None \<rparr>"]
  by simp

section \<open>Properties of the URL shorthand\<close>

lemma deserializeUrl_plain: "\<not> startsWith s ''_'' \<Longrightarrow> deserializeUrl d s = s"
  by (simp add: deserializeUrl_def)

lemma split_on_sep:
  "c \<notin> set xs \<Longrightarrow> split_on c (xs @ c # ys) = xs # split_on c ys"
  by (induction xs) auto

lemma split_on_nonempty: "split_on c s \<noteq> []"
  by (induction s) (auto split: list.splits)

lemma join_with_cons: "join_with sep ((x # p) # ps) = x # join_with sep (p # ps)"
  by (cases ps) auto

lemma join_split: "join_with [c] (split_on c s) = s"
proof (induction s)
  case Nil
  then show ?case by simp
next
  case (Cons x s)
  obtain p ps where sp: "split_on c s = p # ps"
    using split_on_nonempty[of c s] by (cases "split_on c s") auto
  with Cons show ?case by (auto simp: join_with_cons)
qed

lemma map_of_obj_set: "map_of (obj_set kvs k v) k = Some v"
  by (induction kvs) auto

lemma distinct_obj_set: "distinct (map fst kvs) \<Longrightarrow> distinct (map fst (obj_set kvs k v))"
  by (simp add: map_fst_obj_set)

lemma String_of_nat_no_underscore: "CHR ''_'' \<notin> set (String_of_nat n)"
  using String_of_nat_digits[of "CHR ''_''" n] by (auto simp: is_digit_def)

lemma read_shorthand:
  assumes "CHR ''_'' \<notin> set cacheId" and "map_of (urlPartCache d) cacheId = Some part"
  shows "deserializeUrl d (''_'' @ cacheId @ ''_'' @ path) = part @ path"
proof -
  have "split_on CHR ''_'' (''_'' @ cacheId @ ''_'' @ path) = [] # cacheId # split_on CHR ''_'' path"
    using split_on_sep[OF assms(1), of path] by simp
  then show ?thesis
    using assms(2) join_split[of "CHR ''_''" path]
    by (simp add: deserializeUrl_def Let_def str_or_def)
qed

lemma url_shorthand_read_back:
  assumes "cache_wf d"
  shows "deserializeUrl (snd (serializeUrl url_path url d)) (fst (serializeUrl url_path url d))
      = remove_first (str_or ''null'' (url_path url)) url @ str_or ''null'' (url_path url)"
    and "cache_wf (snd (serializeUrl url_path url d))"
proof -
  let ?p = "str_or ''null'' (url_path url)"
  let ?part = "remove_first ?p url"
  let ?found = "find (\<lambda>(cacheId, value). value = ?part) (urlPartCache d)"
  from assms have dist: "distinct (map fst (urlPartCache d))"
    and us: "\<And>k. k \<in> set (map fst (urlPartCache d)) \<Longrightarrow> CHR ''_'' \<notin> set k"
    by (auto simp: cache_wf_def list_all_iff)
  show "deserializeUrl (snd (serializeUrl url_path url d)) (fst (serializeUrl url_path url d))
      = ?part @ ?p"
  proof (cases ?found)
    case None
    let ?id = "String_of_nat (length (urlPartCache d) + 1)"
    let ?d' = "d\<lparr>urlPartCache := obj_set (urlPartCache d) ?id ?part\<rparr>"
    from None have s: "serializeUrl url_path url d = (''_'' @ ?id @ ''_'' @ ?p, ?d')"
      by (simp add: serializeUrl_def Let_def)
    have "map_of (urlPartCache ?d') ?id = Some ?part" by (simp add: map_of_obj_set)
    from read_shorthand[OF String_of_nat_no_underscore this, of ?p] s show ?thesis by simp
  next
    case (Some entry)
    obtain cid v where e: "entry = (cid, v)" by (cases entry)
    from Some e have s: "serializeUrl url_path url d = (''_'' @ cid @ ''_'' @ ?p, d)"
      by (simp add: serializeUrl_def Let_def)
    from Some e have "(cid, v) \<in> set (urlPartCache d)" and v: "v = ?part"
      by (auto simp: find_Some_iff in_set_conv_nth)
    with dist have m: "map_of (urlPartCache d) cid = Some ?part" by simp
    from \<open>(cid, v) \<in> set (urlPartCache d)\<close> have "cid \<in> set (map fst (urlPartCache d))" by force
    from read_shorthand[OF us[OF this] m, of ?p] s show ?thesis by simp
  qed
  show "cache_wf (snd (serializeUrl url_path url d))"
  proof (cases ?found)
    case None
    then have "urlPartCache (snd (serializeUrl url_path url d))
        = obj_set (urlPartCache d) (String_of_nat (length (urlPartCache d) + 1)) ?part"
      by (simp add: serializeUrl_def Let_def)
    with dist us String_of_nat_no_underscore[of "length (urlPartCache d) + 1"] show ?thesis
      by (auto simp: cache_wf_def list_all_iff map_fst_obj_set)
  next
    case (Some entry)
    then have "snd (serializeUrl url_path url d) = d"
      by (cases entry) (simp add: serializeUrl_def Let_def)
    with assms show ?thesis by simp
  qed
qed

text \<open>
  Claim C8 (\<open>deserializeUrl(serializeUrl(u)) == u\<close> for every URL) does not hold for
  a URL with a fragment. \<open>url.parse('http://w.org/wiki/A#top').path\<close> is \<open>/wiki/A\<close>;
  removing it leaves the fragment in the cached part, so on a fresh downloader the
  shorthand is \<open>_1_/wiki/A\<close> and reading it back gives \<open>http://w.org#top/wiki/A\<close>.
  In general the pair reads back the URL with the first occurrence of its path moved
  to the end (\<open>url_shorthand_read_back\<close>), which is the URL itself only when that
  occurrence is its tail. (A string that does not start with \<open>_\<close> is returned
  unchanged: \<open>deserializeUrl_plain\<close>.)
\<close>

theorem url_shorthand_loses_fragment:
  "fst (serializeUrl (\<lambda>u. Some ''/wiki/A'') ''http://w.org/wiki/A#top''
         (new_Downloader [] [] 1 False None)) = ''_1_/wiki/A''
   \<and> deserializeUrl
        (snd (serializeUrl (\<lambda>u. Some ''/wiki/A'') ''http://w.org/wiki/A#top''
               (new_Downloader [] [] 1 False None)))
        (fst (serializeUrl (\<lambda>u. Some ''/wiki/A'') ''http://w.org/wiki/A#top''
               (new_Downloader [] [] 1 False None)))
      = ''http://w.org#top/wiki/A''"
  by (simp add: serializeUrl_def deserializeUrl_def new_Downloader_def str_or_def Let_def
      digit_char_def String_of_nat.simps)

end
